theory Spec2Isabelle
  imports Main "HOL-Library.Sublist" "HOL-Library.Word"
begin

section \<open>Strings and formatting\<close>

text \<open>
  A Go \<^verbatim>\<open>string\<close> is a sequence of bytes and \<^verbatim>\<open>len\<close> counts bytes, so a Go string is
  modelled as a \<^typ>\<open>string\<close> (a list of 8-bit \<^typ>\<open>char\<close>). Lengths and indices are
  natural numbers; Go's \<^verbatim>\<open>int\<close> has 64 bits, and where that bound matters (the length of
  the text handed to \<^verbatim>\<open>splitContent\<close>) a theorem carries it as a hypothesis.
\<close>

definition byte :: "char \<Rightarrow> nat" where
  "byte c = of_char c"

definition digit :: "nat \<Rightarrow> char" where
  "digit d = char_of (48 + d)"

text \<open>\<^verbatim>\<open>fmt.Sprintf("%d", n)\<close> for a non-negative \<^verbatim>\<open>n\<close>: the decimal digits of \<open>n\<close>.\<close>

function itoa :: "nat \<Rightarrow> string" where
  "itoa n = (if n < 10 then [digit n] else itoa (n div 10) @ [digit (n mod 10)])"
  by pat_completeness auto
termination
  by (relation "measure id") auto

declare itoa.simps [simp del]

text \<open>\<^verbatim>\<open>strings.Split(s, sep)\<close> for a separator of one byte, \<^verbatim>\<open>strings.Join\<close> and
  \<^verbatim>\<open>strings.Contains\<close>.\<close>

fun Split :: "string \<Rightarrow> char \<Rightarrow> string list" where
  "Split [] sep = [[]]"
| "Split (c # cs) sep =
     (if c = sep then [] # Split cs sep
      else (case Split cs sep of [] \<Rightarrow> [[c]] | w # ws \<Rightarrow> (c # w) # ws))"

fun Join :: "string list \<Rightarrow> string \<Rightarrow> string" where
  "Join [] sep = []"
| "Join [x] sep = x"
| "Join (x # y # ys) sep = x @ sep @ Join (y # ys) sep"

fun Contains :: "string \<Rightarrow> string \<Rightarrow> bool" where
  "Contains [] substr = (substr = [])"
| "Contains (c # cs) substr = (prefix substr (c # cs) \<or> Contains cs substr)"

text \<open>
  \<^verbatim>\<open>strings.Fields\<close> splits around runs of white space as \<^verbatim>\<open>unicode.IsSpace\<close> defines it:
  the ASCII bytes 9-13 and 32, and the UTF-8 encodings of U+0085, U+00A0, U+1680,
  U+2000-U+200A, U+2028, U+2029, U+202F, U+205F and U+3000. \<open>spaceWidth s\<close> is the number of
  bytes of the white-space character that \<open>s\<close> starts with, or 0.
\<close>

definition threeByteSpace :: "nat \<Rightarrow> nat \<Rightarrow> nat \<Rightarrow> bool" where
  "threeByteSpace b0 b1 b2 =
     ((b0 = 0xE1 \<and> b1 = 0x9A \<and> b2 = 0x80) \<or>
      (b0 = 0xE2 \<and> b1 = 0x80 \<and> ((0x80 \<le> b2 \<and> b2 \<le> 0x8A) \<or> b2 = 0xA8 \<or> b2 = 0xA9 \<or> b2 = 0xAF)) \<or>
      (b0 = 0xE2 \<and> b1 = 0x81 \<and> b2 = 0x9F) \<or>
      (b0 = 0xE3 \<and> b1 = 0x80 \<and> b2 = 0x80))"

definition spaceWidth :: "string \<Rightarrow> nat" where
  "spaceWidth s =
     (case map byte (take 3 s) of
        [] \<Rightarrow> 0
      | b0 # bs \<Rightarrow>
          if (9 \<le> b0 \<and> b0 \<le> 13) \<or> b0 = 32 then 1
          else (case bs of
                  [] \<Rightarrow> 0
                | b1 # bs' \<Rightarrow>
                    if b0 = 0xC2 \<and> (b1 = 0x85 \<or> b1 = 0xA0) then 2
                    else (case bs' of
                            [] \<Rightarrow> 0
                          | b2 # _ \<Rightarrow> if threeByteSpace b0 b1 b2 then 3 else 0)))"

function fieldsFrom :: "string \<Rightarrow> string \<Rightarrow> string list" where
  "fieldsFrom word [] = (if word = [] then [] else [word])"
| "fieldsFrom word (c # cs) =
     (if 0 < spaceWidth (c # cs)
      then (if word = [] then [] else [word]) @ fieldsFrom [] (drop (spaceWidth (c # cs)) (c # cs))
      else fieldsFrom (word @ [c]) cs)"
  by pat_completeness auto
termination
  by (relation "measure (\<lambda>(word, s). length s)") auto

definition Fields :: "string \<Rightarrow> string list" where
  "Fields s = fieldsFrom [] s"

text \<open>
  A notion used to state what \<^verbatim>\<open>strings.Fields\<close> returns: \<open>whiteSpace s\<close> holds when \<open>s\<close> is made
  of white-space characters only.
\<close>

function whiteSpace :: "string \<Rightarrow> bool" where
  "whiteSpace [] = True"
| "whiteSpace (c # cs) =
     (if 0 < spaceWidth (c # cs) then whiteSpace (drop (spaceWidth (c # cs)) (c # cs)) else False)"
  by pat_completeness auto
termination
  by (relation "measure length") auto

text \<open>
  UTF-8: a continuation byte is \<open>10xxxxxx\<close>. \<open>RuneCount\<close> counts the characters of
  well-formed UTF-8 text (the bytes that start a character). \<open>utf8WellFormed\<close> checks that
  every lead byte is followed by the right number of continuation bytes; every valid
  UTF-8 string passes it, so a string that fails it is not valid UTF-8.
\<close>

definition isContinuation :: "char \<Rightarrow> bool" where
  "isContinuation c = (0x80 \<le> byte c \<and> byte c < 0xC0)"

definition RuneCount :: "string \<Rightarrow> nat" where
  "RuneCount s = length (filter (\<lambda>c. \<not> isContinuation c) s)"

fun utf8WellFormed :: "string \<Rightarrow> bool" where
  "utf8WellFormed [] = True"
| "utf8WellFormed (c # cs) =
     (if byte c < 0x80 then utf8WellFormed cs
      else if 0xC2 \<le> byte c \<and> byte c < 0xE0 then
        (case cs of
           c1 # r \<Rightarrow> isContinuation c1 \<and> utf8WellFormed r
         | _ \<Rightarrow> False)
      else if 0xE0 \<le> byte c \<and> byte c < 0xF0 then
        (case cs of
           c1 # c2 # r \<Rightarrow> isContinuation c1 \<and> isContinuation c2 \<and> utf8WellFormed r
         | _ \<Rightarrow> False)
      else if 0xF0 \<le> byte c \<and> byte c < 0xF5 then
        (case cs of
           c1 # c2 # c3 # r \<Rightarrow>
             isContinuation c1 \<and> isContinuation c2 \<and> isContinuation c3 \<and> utf8WellFormed r
         | _ \<Rightarrow> False)
      else False)"

section \<open>splitContent (src/main.go, lines 371-439)\<close>

text \<open>
  The function is the same, line for line, in the later revision of the file
  (src/unnamed/part_000, lines 1472-1540).
\<close>

definition maxLength :: nat where
  "maxLength = 300"

text \<open>\<^verbatim>\<open>fmt.Sprintf(" (%d/%d)", i, n)\<close>.\<close>

definition partSuffix :: "nat \<Rightarrow> nat \<Rightarrow> string" where
  "partSuffix i n = '' ('' @ itoa i @ ''/'' @ itoa n @ '')''"

text \<open>
  \<^verbatim>\<open>estimatedTotal := (len(content) + maxLength - 1) / (maxLength - 10)\<close>,
  \<^verbatim>\<open>suffixSize := len(fmt.Sprintf(" (%d/%d)", estimatedTotal, estimatedTotal))\<close> and
  \<^verbatim>\<open>effectiveMaxLength := maxLength - suffixSize\<close>. The subtraction never goes below
  zero on a text that Go can hold: for fewer than \<open>2^63\<close> bytes the suffix has at most 42
  bytes (lemma \<open>effectiveMaxLength_ge\<close>).
\<close>

definition estimatedTotal :: "string \<Rightarrow> nat" where
  "estimatedTotal content = (length content + maxLength - 1) div (maxLength - 10)"

definition suffixSize :: "string \<Rightarrow> nat" where
  "suffixSize content = length (partSuffix (estimatedTotal content) (estimatedTotal content))"

definition effectiveMaxLength :: "string \<Rightarrow> nat" where
  "effectiveMaxLength content = maxLength - suffixSize content"

text \<open>
  The backward scan \<^verbatim>\<open>for breakPoint > 0 && remaining[breakPoint] != ' ' { breakPoint-- }\<close>.
  It starts at \<open>effectiveMaxLength < len(remaining)\<close>, so every index it reads is in range.
\<close>

fun scanBack :: "string \<Rightarrow> nat \<Rightarrow> nat" where
  "scanBack remaining 0 = 0"
| "scanBack remaining (Suc b) =
     (if remaining ! Suc b \<noteq> CHR '' '' then scanBack remaining b else Suc b)"

text \<open>
  The forward scan \<^verbatim>\<open>for i := breakPoint; i < min(effectiveMaxLength, len(remaining)); i++\<close>:
  the first index of the window that holds a space, or the start of the window when
  there is none.
\<close>

definition scanForward :: "string \<Rightarrow> nat \<Rightarrow> nat \<Rightarrow> nat" where
  "scanForward remaining start stop =
     (case List.find (\<lambda>i. remaining ! i = CHR '' '') [start..<stop] of
        Some i \<Rightarrow> i
      | None \<Rightarrow> start)"

text \<open>The break point that one iteration of the loop chooses (lines 397-420).\<close>

definition findBreakPoint :: "nat \<Rightarrow> string \<Rightarrow> nat" where
  "findBreakPoint eff remaining =
     (let breakPoint = scanBack remaining eff in
      if breakPoint < eff div 2 then
        (let breakPoint = scanForward remaining (eff div 2) (min eff (length remaining)) in
         if breakPoint < eff div 2 \<or> breakPoint = eff div 2 then eff else breakPoint)
      else breakPoint)"

text \<open>The text left after the cut (lines 425-430): a space at the cut is skipped.\<close>

definition advance :: "nat \<Rightarrow> string \<Rightarrow> string" where
  "advance breakPoint remaining =
     (if breakPoint < length remaining \<and> remaining ! breakPoint = CHR '' ''
      then drop (breakPoint + 1) remaining
      else drop breakPoint remaining)"

text \<open>
  The loop \<^verbatim>\<open>for len(remaining) > 0\<close> (lines 388-431). Nothing in the source bounds the
  number of iterations, so the loop is a partial function: \<open>None\<close> means that it does not
  return.
\<close>

partial_function (option) splitLoop :: "nat \<Rightarrow> string \<Rightarrow> string list \<Rightarrow> string list option" where
  "splitLoop eff remaining parts =
     (if length remaining > 0 then
        (if length remaining \<le> eff then Some (parts @ [remaining])
         else splitLoop eff (advance (findBreakPoint eff remaining) remaining)
                (parts @ [take (findBreakPoint eff remaining) remaining]))
      else Some parts)"

declare splitLoop.simps [code]

text \<open>
  The part indicators (lines 433-436):
  \<^verbatim>\<open>parts[i] = parts[i] + fmt.Sprintf(" (%d/%d)", i+1, len(parts))\<close>.
\<close>

fun addIndicatorsFrom :: "nat \<Rightarrow> nat \<Rightarrow> string list \<Rightarrow> string list" where
  "addIndicatorsFrom i n [] = []"
| "addIndicatorsFrom i n (p # ps) = (p @ partSuffix (i + 1) n) # addIndicatorsFrom (i + 1) n ps"

definition addIndicators :: "string list \<Rightarrow> string list" where
  "addIndicators parts = addIndicatorsFrom 0 (length parts) parts"

definition splitContent :: "string \<Rightarrow> string list option" where
  "splitContent content =
     (if length content \<le> maxLength then Some [content]
      else map_option addIndicators (splitLoop (effectiveMaxLength content) content []))"

text \<open>
  Two notions used to state properties of the result. \<open>stripIndicators\<close> removes from part
  \<open>i\<close> of \<open>n\<close> as many bytes as its indicator \<^verbatim>\<open>" (i/n)"\<close> has. \<open>chunks n eff remaining\<close> unrolls
  the loop at most \<open>n\<close> times; it is the value of the loop whenever \<open>n\<close> iterations are
  enough (lemma \<open>splitLoop_chunks\<close>).
\<close>

fun stripIndicatorsFrom :: "nat \<Rightarrow> nat \<Rightarrow> string list \<Rightarrow> string list" where
  "stripIndicatorsFrom i n [] = []"
| "stripIndicatorsFrom i n (p # ps) =
     take (length p - length (partSuffix (i + 1) n)) p # stripIndicatorsFrom (i + 1) n ps"

definition stripIndicators :: "string list \<Rightarrow> string list" where
  "stripIndicators parts = stripIndicatorsFrom 0 (length parts) parts"

fun chunks :: "nat \<Rightarrow> nat \<Rightarrow> string \<Rightarrow> string list" where
  "chunks 0 eff remaining = []"
| "chunks (Suc n) eff remaining =
     (if remaining = [] then []
      else if length remaining \<le> eff then [remaining]
      else take (findBreakPoint eff remaining) remaining
           # chunks n eff (advance (findBreakPoint eff remaining) remaining))"

section \<open>The database (the Go file stored as src/readme.md)\<close>

text \<open>
  A Go \<^verbatim>\<open>error\<close> is modelled by its message. The three tables are maps from the primary
  key to the text column the code reads. SQL statements are taken to succeed; the one
  error of a query is the missing row (\<^verbatim>\<open>sql.ErrNoRows\<close>).
\<close>

datatype error = Err (message: string)

definition ErrNoRows :: error where
  "ErrNoRows = Err ''sql: no rows in result set''"

record Database =
  post_mappings :: "string \<rightharpoonup> string"
  edits :: "string \<rightharpoonup> string"
  state :: "string \<rightharpoonup> string"

definition SavePostMapping :: "Database \<Rightarrow> string \<Rightarrow> string list \<Rightarrow> Database" where
  "SavePostMapping d mastodonID bskyIDs =
     d\<lparr>post_mappings := (post_mappings d)(mastodonID \<mapsto> Join bskyIDs '','')\<rparr>"

definition GetBlueskyIDsForMastodonPost :: "Database \<Rightarrow> string \<Rightarrow> error + string list" where
  "GetBlueskyIDsForMastodonPost d mastodonID =
     (case post_mappings d mastodonID of
        None \<Rightarrow> Inl ErrNoRows
      | Some idsStr \<Rightarrow> Inr (Split idsStr CHR '',''))"

definition MarkAsEdit :: "Database \<Rightarrow> string \<Rightarrow> string \<Rightarrow> Database" where
  "MarkAsEdit d editID origID = d\<lparr>edits := (edits d)(editID \<mapsto> origID)\<rparr>"

text \<open>\<open>CheckIfEdit\<close> returns the pair of the source together with the database it leaves.\<close>

definition CheckIfEdit :: "Database \<Rightarrow> string \<Rightarrow> string \<Rightarrow> (string \<times> bool) \<times> Database" where
  "CheckIfEdit d mastodonID originalID =
     (if originalID \<noteq> [] \<and> originalID \<noteq> mastodonID
      then ((originalID, True), MarkAsEdit d mastodonID originalID)
      else (case edits d mastodonID of
              None \<Rightarrow> (([], False), d)
            | Some origID \<Rightarrow> ((origID, True), d)))"

definition SaveContentHash :: "Database \<Rightarrow> string \<Rightarrow> string \<Rightarrow> Database" where
  "SaveContentHash d postID contentHash =
     d\<lparr>state := (state d)(''content_hash_'' @ postID \<mapsto> contentHash)\<rparr>"

text \<open>\<open>GetContentHash\<close> answers the empty string, without error, when there is no row.\<close>

definition GetContentHash :: "Database \<Rightarrow> string \<Rightarrow> string" where
  "GetContentHash d postID =
     (case state d (''content_hash_'' @ postID) of None \<Rightarrow> [] | Some hash \<Rightarrow> hash)"

section \<open>The Mastodon post and the Bluesky client (src/mastodon/client.go, src/unnamed/part_000)\<close>

text \<open>
  \<open>Reblog\<close> holds whether the pointer \<^verbatim>\<open>post.Reblog\<close> is non-nil, the only use the bridge
  makes of it. Times are nanoseconds since the epoch.
\<close>

record Post =
  ID :: string
  Content :: string
  Reblog :: bool
  Visibility :: string
  CreatedAt :: int
  InReplyToID :: string
  Hashtags :: "string list"
  OriginalID :: string
  Username :: string
  Instance :: string
  DisplayName :: string

text \<open>
  A post of a feed or search response, with the fields the client decodes.
  \<open>RecordCreatedAt\<close> is the result of \<^verbatim>\<open>time.Parse(time.RFC3339, post.Record.CreatedAt)\<close>.
\<close>

record FoundPost =
  Uri :: string
  Cid :: string
  AuthorDisplayName :: string
  RecordText :: string
  RecordExternalUrl :: string
  RecordCreatedAt :: "error + int"

text \<open>
  The Bluesky service is outside the program: the client is a record of the answers of
  its HTTP requests. \<open>createRecord i text reply\<close> is the answer to the request that creates
  the post for part \<open>i\<close> (the index lets equal requests be answered differently), with the
  parent \<open>(cid, uri)\<close> of a reply; it is an error or the decoded \<open>(uri, cid)\<close>.
  \<open>deleteRecord\<close> is the outcome of the request that deletes a record key. Both include
  the authentication that precedes the request; \<open>ensureAuth\<close> is its outcome where the
  source reports it on its own, in the lookup.
\<close>

record BlueskyClient =
  ensureAuth :: "error option"
  createRecord :: "nat \<Rightarrow> string \<Rightarrow> (string \<times> string) option \<Rightarrow> error + string \<times> string"
  deleteRecord :: "string \<Rightarrow> error option"
  resolveHandle :: "string \<Rightarrow> error + string"
  getAuthorFeed :: "string \<Rightarrow> error + FoundPost list"
  searchPosts :: "string \<Rightarrow> nat \<Rightarrow> error + FoundPost list"

text \<open>\<^verbatim>\<open>CreatePost\<close> and \<^verbatim>\<open>CreateReply\<close> return \<^verbatim>\<open>postResp.Uri + "|" + postResp.Cid\<close>.\<close>

definition CreatePost :: "BlueskyClient \<Rightarrow> nat \<Rightarrow> string \<Rightarrow> error + string" where
  "CreatePost c i text =
     (case createRecord c i text None of
        Inl err \<Rightarrow> Inl err
      | Inr (uri, cid) \<Rightarrow> Inr (uri @ ''|'' @ cid))"

definition CreateReply :: "BlueskyClient \<Rightarrow> nat \<Rightarrow> string \<Rightarrow> string \<Rightarrow> string \<Rightarrow> error + string" where
  "CreateReply c i text parentCid parentUri =
     (case createRecord c i text (Some (parentCid, parentUri)) of
        Inl err \<Rightarrow> Inl err
      | Inr (uri, cid) \<Rightarrow> Inr (uri @ ''|'' @ cid))"

text \<open>
  \<^verbatim>\<open>DeletePost\<close> (lines 541-601) accepts \<^verbatim>\<open>URI|CID\<close>, a full \<^verbatim>\<open>at://\<close> URI or a bare record
  key, and requests the deletion of the record key.
\<close>

definition recordKey :: "string \<Rightarrow> string" where
  "recordKey recordID =
     (if Contains recordID ''|'' then
        (case Split recordID CHR ''|'' of
           [] \<Rightarrow> recordID
         | p # _ \<Rightarrow> if length (Split p CHR ''/'') \<ge> 4 then last (Split p CHR ''/'') else recordID)
      else if prefix ''at://'' recordID then
        (if length (Split recordID CHR ''/'') \<ge> 4 then last (Split recordID CHR ''/'') else recordID)
      else recordID)"

definition DeletePost :: "BlueskyClient \<Rightarrow> string \<Rightarrow> error option" where
  "DeletePost c recordID = deleteRecord c (recordKey recordID)"

subsection \<open>The parent lookup (src/unnamed/part_000, lines 721-1017)\<close>

fun findInPosts :: "string \<Rightarrow> FoundPost list \<Rightarrow> (string \<times> string) option" where
  "findInPosts mastodonPostID [] = None"
| "findInPosts mastodonPostID (post # posts) =
     (if Contains (RecordExternalUrl post) mastodonPostID \<or> Contains (RecordText post) mastodonPostID
      then Some (Uri post, Cid post)
      else findInPosts mastodonPostID posts)"

definition findPostInUserFeed :: "BlueskyClient \<Rightarrow> string \<Rightarrow> string \<Rightarrow> error + string \<times> string" where
  "findPostInUserFeed c did mastodonPostID =
     (case getAuthorFeed c did of
        Inl err \<Rightarrow> Inl err
      | Inr feed \<Rightarrow>
          (case findInPosts mastodonPostID feed of
             Some found \<Rightarrow> Inr found
           | None \<Rightarrow> Inl (Err ''no matching post found'')))"

definition searchForPost :: "BlueskyClient \<Rightarrow> string \<Rightarrow> string \<Rightarrow> error + string \<times> string" where
  "searchForPost c searchTerm mastodonPostID =
     (case searchPosts c searchTerm 20 of
        Inl err \<Rightarrow> Inl err
      | Inr posts \<Rightarrow>
          (case findInPosts mastodonPostID posts of
             Some found \<Rightarrow> Inr found
           | None \<Rightarrow> Inl (Err ''no matching post found in search results'')))"

text \<open>
  \<^verbatim>\<open>postCreatedAt.Sub(postDate)\<close> is a \<^verbatim>\<open>time.Duration\<close>, a signed 64-bit count of
  nanoseconds that saturates at its bounds.
\<close>

definition Sub :: "int \<Rightarrow> int \<Rightarrow> int" where
  "Sub t u =
     (if t - u > 2 ^ 63 - 1 then 2 ^ 63 - 1
      else if t - u < - (2 ^ 63) then - (2 ^ 63)
      else t - u)"

definition Hour :: int where
  "Hour = 3600 * 1000000000"

text \<open>The loop over the search results of \<^verbatim>\<open>findPostByContentAndName\<close> (lines 848-872).\<close>

fun matchByContentAndName :: "string \<Rightarrow> string \<Rightarrow> int \<Rightarrow> FoundPost list \<Rightarrow> (string \<times> string) option" where
  "matchByContentAndName content displayName postDate [] = None"
| "matchByContentAndName content displayName postDate (post # posts) =
     (if AuthorDisplayName post = displayName \<or>
         Contains (AuthorDisplayName post) displayName \<or>
         Contains displayName (AuthorDisplayName post)
      then
        (if Contains (RecordText post) content \<or> Contains content (RecordText post)
         then
           (case RecordCreatedAt post of
              Inl err \<Rightarrow> matchByContentAndName content displayName postDate posts
            | Inr postCreatedAt \<Rightarrow>
                if Sub postCreatedAt postDate < 24 * Hour \<and> Sub postCreatedAt postDate > - 24 * Hour
                then Some (Uri post, Cid post)
                else matchByContentAndName content displayName postDate posts)
         else matchByContentAndName content displayName postDate posts)
      else matchByContentAndName content displayName postDate posts)"

definition findPostByContentAndName ::
  "BlueskyClient \<Rightarrow> string \<Rightarrow> string \<Rightarrow> int \<Rightarrow> error + string \<times> string" where
  "findPostByContentAndName c content displayName postDate =
     (case searchPosts c content 30 of
        Inl err \<Rightarrow> Inl err
      | Inr posts \<Rightarrow>
          (case matchByContentAndName content displayName postDate posts of
             Some found \<Rightarrow> Inr found
           | None \<Rightarrow> Inl (Err ''no matching post found by content and display name'')))"

definition possibleHandles :: "string \<Rightarrow> string \<Rightarrow> string list" where
  "possibleHandles mastodonUser mastodonInstance =
     [mastodonUser @ ''.'' @ mastodonInstance @ ''.ap.brid.gy'',
      mastodonUser @ ''.'' @ mastodonInstance @ ''.ap.bridgy.fed'',
      mastodonUser @ ''_'' @ mastodonInstance @ ''.ap.brid.gy'',
      mastodonUser @ ''-'' @ mastodonInstance @ ''.ap.brid.gy'']"

text \<open>The loop over the possible handles (lines 742-757).\<close>

fun tryHandles :: "BlueskyClient \<Rightarrow> string \<Rightarrow> string list \<Rightarrow> (string \<times> string) option" where
  "tryHandles c mastodonPostID [] = None"
| "tryHandles c mastodonPostID (handle # handles) =
     (case resolveHandle c handle of
        Inl err \<Rightarrow> tryHandles c mastodonPostID handles
      | Inr did \<Rightarrow>
          (case findPostInUserFeed c did mastodonPostID of
             Inl err \<Rightarrow> tryHandles c mastodonPostID handles
           | Inr (uri, cid) \<Rightarrow>
               if uri \<noteq> [] \<and> cid \<noteq> [] then Some (uri, cid)
               else tryHandles c mastodonPostID handles))"

text \<open>
  The search term of the content match (lines 775-789): the whole content when it has at
  most 30 bytes, else the leading words that fit. The loop stops at the first word that
  does not fit.
\<close>

fun addWords :: "string \<Rightarrow> string list \<Rightarrow> string" where
  "addWords searchContent [] = searchContent"
| "addWords searchContent (word # words) =
     (if length searchContent + length word + 1 \<le> 30
      then addWords ((if searchContent \<noteq> [] then searchContent @ '' '' else searchContent) @ word) words
      else searchContent)"

definition searchContentOf :: "string \<Rightarrow> string" where
  "searchContentOf postContent =
     (if length postContent > 30 then addWords [] (Fields postContent) else postContent)"

definition LookupBridgedMastodonPost ::
  "BlueskyClient \<Rightarrow> string \<Rightarrow> string \<Rightarrow> string \<Rightarrow> string \<Rightarrow> string \<Rightarrow> int \<Rightarrow> error + string \<times> string" where
  "LookupBridgedMastodonPost c mastodonPostID mastodonUser mastodonInstance postContent displayName postDate =
     (case ensureAuth c of
        Some err \<Rightarrow> Inl (Err (''authentication failed: '' @ message err))
      | None \<Rightarrow>
          (case tryHandles c mastodonPostID (possibleHandles mastodonUser mastodonInstance) of
             Some found \<Rightarrow> Inr found
           | None \<Rightarrow>
               (case (case searchForPost c (mastodonInstance @ ''/'' @ mastodonPostID) mastodonPostID of
                        Inr (uri, cid) \<Rightarrow> if uri \<noteq> [] \<and> cid \<noteq> [] then Some (uri, cid) else None
                      | Inl err \<Rightarrow> None) of
                  Some found \<Rightarrow> Inr found
                | None \<Rightarrow>
                    (case (if postContent \<noteq> []
                           then (case findPostByContentAndName c (searchContentOf postContent)
                                        displayName postDate of
                                   Inr (uri, cid) \<Rightarrow>
                                     if uri \<noteq> [] \<and> cid \<noteq> [] then Some (uri, cid) else None
                                 | Inl err \<Rightarrow> None)
                           else None) of
                       Some found \<Rightarrow> Inr found
                     | None \<Rightarrow>
                         Inl (Err (''could not find Mastodon post '' @ mastodonPostID @ '' on Bluesky''))))))"

section \<open>ProcessPost\<close>

text \<open>
  The bridge holds the configuration and the two clients. \<^verbatim>\<open>strings.EqualFold\<close> and SHA-256
  come from the Go library and are parameters; of the Mastodon client the bridge uses
  \<^verbatim>\<open>GetPostWithEdits\<close>, an HTTP request whose answer is a parameter too.
\<close>

record Bridge =
  FilterHashtag :: string
  EqualFold :: "string \<Rightarrow> string \<Rightarrow> bool"
  sha256 :: "string \<Rightarrow> 256 word"
  bluesky :: BlueskyClient
  GetPostWithEdits :: "string \<Rightarrow> error + Post"

text \<open>
  \<^verbatim>\<open>hashPostContent\<close> (part_000, lines 1543-1547) is \<^verbatim>\<open>hex.EncodeToString\<close> of the 32 bytes of
  the digest: 64 lower-case hexadecimal digits.
\<close>

definition hexDigit :: "nat \<Rightarrow> char" where
  "hexDigit v = ''0123456789abcdef'' ! v"

fun hexN :: "nat \<Rightarrow> nat \<Rightarrow> string" where
  "hexN 0 v = []"
| "hexN (Suc k) v = hexN k (v div 16) @ [hexDigit (v mod 16)]"

definition hashPostContent :: "Bridge \<Rightarrow> string \<Rightarrow> string" where
  "hashPostContent b content = hexN 64 (unat (sha256 b content))"

text \<open>
  What a call of \<^verbatim>\<open>ProcessPost\<close> does to the outside is the list of its requests to
  Bluesky and of its writes to the database, in order, each with its outcome or
  argument. A call returns an error or \<^verbatim>\<open>nil\<close>, or panics. The log lines and the pause
  of 500 ms between two requests are left out, except where a log line can panic.
\<close>

datatype event =
    CreatePostCall string "error + string"
  | CreateReplyCall string string string "error + string"
  | DeletePostCall string "error option"
  | SavePostMappingCall string "string list"
  | SaveContentHashCall string string

datatype outcome = Returned "error option" | Panicked

definition hasFilterTag :: "Bridge \<Rightarrow> Post \<Rightarrow> bool" where
  "hasFilterTag b post = list_ex (\<lambda>tag. EqualFold b tag (FilterHashtag b)) (Hashtags post)"

text \<open>The guard before each request (lines 293-297 of src/main.go).\<close>

definition truncatePart :: "string \<Rightarrow> string" where
  "truncatePart part = (if length part > 300 then take 297 part @ ''...'' else part)"

text \<open>The request for part \<open>i\<close> (lines 307-317), with the event that records it.\<close>

definition createPart ::
  "BlueskyClient \<Rightarrow> string \<Rightarrow> string \<Rightarrow> nat \<Rightarrow> string \<Rightarrow> string \<Rightarrow> string \<Rightarrow> (error + string) \<times> event" where
  "createPart c parentUri parentCid i part lastUri lastCid =
     (if i = 0 \<and> parentUri = [] \<and> parentCid = []
      then (CreatePost c i part, CreatePostCall part (CreatePost c i part))
      else (CreateReply c i part lastCid lastUri,
            CreateReplyCall part lastCid lastUri (CreateReply c i part lastCid lastUri)))"

text \<open>The clean-up after a failed request (lines 322-327): \<^verbatim>\<open>DeletePost(ctx, parts[0])\<close>.\<close>

definition cleanupCreated :: "BlueskyClient \<Rightarrow> string list \<Rightarrow> event list" where
  "cleanupCreated c bskyIDs =
     concat (map (\<lambda>bskyID. case Split bskyID CHR ''|'' of
                          [] \<Rightarrow> []
                        | p # _ \<Rightarrow> [DeletePostCall p (DeletePost c p)]) bskyIDs)"

text \<open>
  The loop \<^verbatim>\<open>for i, part := range parts\<close> (lines 292-343 of src/main.go, lines 1396-1447
  of part_000, the same text). It answers the error of the failed request, or the
  identifiers it has recorded, and the events in order.
\<close>

fun createParts ::
  "BlueskyClient \<Rightarrow> string \<Rightarrow> string \<Rightarrow> nat \<Rightarrow> string list \<Rightarrow> string \<Rightarrow> string \<Rightarrow> string list
   \<Rightarrow> (error + string list) \<times> event list" where
  "createParts c parentUri parentCid i [] lastUri lastCid bskyIDs = (Inr bskyIDs, [])"
| "createParts c parentUri parentCid i (part # parts) lastUri lastCid bskyIDs =
     (case createPart c parentUri parentCid i (truncatePart part) lastUri lastCid of
        (Inl err, ev) \<Rightarrow> (Inl err, ev # cleanupCreated c bskyIDs)
      | (Inr result, ev) \<Rightarrow>
          (if length (Split result CHR ''|'') \<noteq> 2
           then (case createParts c parentUri parentCid (i + 1) parts lastUri lastCid bskyIDs of
                   (r, evs) \<Rightarrow> (r, ev # evs))
           else (case createParts c parentUri parentCid (i + 1) parts
                        (Split result CHR ''|'' ! 0) (Split result CHR ''|'' ! 1)
                        (bskyIDs @ [result]) of
                   (r, evs) \<Rightarrow> (r, ev # evs))))"

text \<open>The start of the loop (lines 283-290): a reply continues from its parent.\<close>

definition createThread ::
  "BlueskyClient \<Rightarrow> string \<Rightarrow> string \<Rightarrow> string list \<Rightarrow> (error + string list) \<times> event list" where
  "createThread c parentUri parentCid parts =
     (if parentUri \<noteq> [] \<and> parentCid \<noteq> []
      then createParts c parentUri parentCid 0 parts parentUri parentCid []
      else createParts c parentUri parentCid 0 parts [] [] [])"

subsection \<open>The revision of src/main.go (lines 200-359)\<close>

text \<open>
  The sources hold two revisions of \<^verbatim>\<open>ProcessPost\<close>. The one of src/main.go recognises an
  edit through \<^verbatim>\<open>CheckIfEdit\<close> and looks for the parent of a reply in the PostMapping
  only; it is modelled as \<open>ProcessPost\<close>. The one of src/unnamed/part_000 compares content
  fingerprints and looks the parent up on Bluesky; it is modelled as \<open>ProcessPost_fp\<close>.
  The creation loop is the same in both.
\<close>

text \<open>The parent of a reply to a post of our own (lines 230-247).\<close>

definition ownParent :: "Database \<Rightarrow> Post \<Rightarrow> string \<times> string" where
  "ownParent d post =
     (if InReplyToID post \<noteq> [] then
        (case GetBlueskyIDsForMastodonPost d (InReplyToID post) of
           Inl err \<Rightarrow> ([], [])
         | Inr parentBskyIDs \<Rightarrow>
             if length parentBskyIDs > 0 \<and> length (Split (last parentBskyIDs) CHR ''|'') = 2
             then (Split (last parentBskyIDs) CHR ''|'' ! 0, Split (last parentBskyIDs) CHR ''|'' ! 1)
             else ([], []))
      else ([], []))"

text \<open>The record key that the edit branch deletes (lines 261-269).\<close>

definition parsedID :: "string \<Rightarrow> string" where
  "parsedID bskyID =
     (case Split bskyID CHR ''|'' of
        [] \<Rightarrow> bskyID
      | p # _ \<Rightarrow> if length (Split p CHR ''/'') \<ge> 4 then last (Split p CHR ''/'') else bskyID)"

text \<open>The deletion of the posts of the original (lines 254-275).\<close>

definition deletePrevious :: "BlueskyClient \<Rightarrow> Database \<Rightarrow> string \<Rightarrow> event list" where
  "deletePrevious c d origPostID =
     (case GetBlueskyIDsForMastodonPost d origPostID of
        Inl err \<Rightarrow> []
      | Inr bskyIDs \<Rightarrow> map (\<lambda>bskyID. DeletePostCall (parsedID bskyID) (DeletePost c (parsedID bskyID))) bskyIDs)"

text \<open>
  \<^verbatim>\<open>ProcessPost\<close> answers the outcome, the database it leaves and its events; \<open>None\<close> when
  \<^verbatim>\<open>splitContent\<close> does not return.
\<close>

definition ProcessPost :: "Bridge \<Rightarrow> Post \<Rightarrow> Database \<Rightarrow> (outcome \<times> Database \<times> event list) option" where
  "ProcessPost b post d =
     (if Reblog post then Some (Returned None, d, [])
      else if Visibility post \<noteq> ''public'' then Some (Returned None, d, [])
      else if FilterHashtag b \<noteq> [] \<and> \<not> hasFilterTag b post then Some (Returned None, d, [])
      else
        (case ownParent d post of (parentUri, parentCid) \<Rightarrow>
         case CheckIfEdit d (ID post) (OriginalID post) of ((origPostID, isEdit), d1) \<Rightarrow>
         case (if isEdit then deletePrevious (bluesky b) d1 origPostID else []) of deleted \<Rightarrow>
         case splitContent (Content post) of
           None \<Rightarrow> None
         | Some parts \<Rightarrow>
             (case createThread (bluesky b) parentUri parentCid parts of
                (Inl err, created) \<Rightarrow> Some (Returned (Some err), d1, deleted @ created)
              | (Inr bskyIDs, created) \<Rightarrow>
                  if isEdit \<and> origPostID \<noteq> ID post
                  then Some (Returned None,
                             SavePostMapping (SavePostMapping d1 (ID post) bskyIDs) origPostID bskyIDs,
                             deleted @ created @
                               [SavePostMappingCall (ID post) bskyIDs,
                                SavePostMappingCall origPostID bskyIDs])
                  else Some (Returned None,
                             SavePostMapping d1 (ID post) bskyIDs,
                             deleted @ created @ [SavePostMappingCall (ID post) bskyIDs]))))"

subsection \<open>The revision of src/unnamed/part_000 (lines 1270-1460)\<close>

text \<open>The deletion of the posts of changed content (lines 1315-1325).\<close>

definition deleteExisting :: "BlueskyClient \<Rightarrow> Database \<Rightarrow> string \<Rightarrow> event list" where
  "deleteExisting c d postID =
     (case GetBlueskyIDsForMastodonPost d postID of
        Inl err \<Rightarrow> []
      | Inr bskyIDs \<Rightarrow>
          if length bskyIDs > 0 then map (\<lambda>bskyID. DeletePostCall bskyID (DeletePost c bskyID)) bskyIDs else [])"

text \<open>
  The parent of a reply (lines 1329-1382): the last post of our own thread for the
  parent, else the post that \<^verbatim>\<open>LookupBridgedMastodonPost\<close> finds. \<open>None\<close> stands for the two
  places that log that the post is skipped and return \<^verbatim>\<open>nil\<close>.
\<close>

definition resolveParent :: "Bridge \<Rightarrow> Database \<Rightarrow> Post \<Rightarrow> (string \<times> string) option" where
  "resolveParent b d post =
     (if InReplyToID post \<noteq> [] then
        (case (case GetBlueskyIDsForMastodonPost d (InReplyToID post) of
                 Inr parentBskyIDs \<Rightarrow>
                   if length parentBskyIDs > 0 then
                     (if length (Split (last parentBskyIDs) CHR ''|'') = 2
                      then Some (Split (last parentBskyIDs) CHR ''|'' ! 0,
                                 Split (last parentBskyIDs) CHR ''|'' ! 1)
                      else Some ([], []))
                   else None
               | Inl err \<Rightarrow> None) of
           Some (parentUri, parentCid) \<Rightarrow> if parentUri = [] then None else Some (parentUri, parentCid)
         | None \<Rightarrow>
             (case GetPostWithEdits b (InReplyToID post) of
                Inl err \<Rightarrow> None
              | Inr parentPost \<Rightarrow>
                  if Username parentPost \<noteq> [] \<and> Instance parentPost \<noteq> [] then
                    (case LookupBridgedMastodonPost (bluesky b) (InReplyToID post)
                            (Username parentPost) (Instance parentPost) (Content parentPost)
                            (DisplayName parentPost) (CreatedAt parentPost) of
                       Inl err \<Rightarrow> None
                     | Inr (parentUri, parentCid) \<Rightarrow>
                         if parentUri = [] then None else Some (parentUri, parentCid))
                  else None))
      else Some ([], []))"

text \<open>
  The two log lines that slice a hash, \<^verbatim>\<open>contentHash[:8]\<close> and \<^verbatim>\<open>existingHash[:8]\<close>, panic
  on a string of fewer than 8 bytes.
\<close>

definition ProcessPost_fp :: "Bridge \<Rightarrow> Post \<Rightarrow> Database \<Rightarrow> (outcome \<times> Database \<times> event list) option" where
  "ProcessPost_fp b post d =
     (if Reblog post then Some (Returned None, d, [])
      else if Visibility post \<noteq> ''public'' then Some (Returned None, d, [])
      else if FilterHashtag b \<noteq> [] \<and> \<not> hasFilterTag b post then Some (Returned None, d, [])
      else
        (case hashPostContent b (Content post) of contentHash \<Rightarrow>
         case GetContentHash d (ID post) of existingHash \<Rightarrow>
         if existingHash = contentHash then
           (if length contentHash < 8 then Some (Panicked, d, []) else Some (Returned None, d, []))
         else if existingHash \<noteq> [] \<and> (length existingHash < 8 \<or> length contentHash < 8) then
           Some (Panicked, d, [])
         else
           (case (if existingHash \<noteq> [] then deleteExisting (bluesky b) d (ID post) else []) of deleted \<Rightarrow>
            case resolveParent b d post of
              None \<Rightarrow> Some (Returned None, d, deleted)
            | Some (parentUri, parentCid) \<Rightarrow>
                (case splitContent (Content post) of
                   None \<Rightarrow> None
                 | Some parts \<Rightarrow>
                     (case createThread (bluesky b) parentUri parentCid parts of
                        (Inl err, created) \<Rightarrow> Some (Returned (Some err), d, deleted @ created)
                      | (Inr bskyIDs, created) \<Rightarrow>
                          Some (Returned None,
                                SaveContentHash (SavePostMapping d (ID post) bskyIDs) (ID post) contentHash,
                                deleted @ created @
                                  [SavePostMappingCall (ID post) bskyIDs,
                                   SaveContentHashCall (ID post) contentHash]))))))"

text \<open>Processing the same post \<open>n\<close> times in a row, as successive polls do.\<close>

fun reprocess :: "nat \<Rightarrow> Bridge \<Rightarrow> Post \<Rightarrow> Database \<Rightarrow> (Database \<times> event list) option" where
  "reprocess 0 b post d = Some (d, [])"
| "reprocess (Suc n) b post d =
     (case ProcessPost_fp b post d of
        None \<Rightarrow> None
      | Some (out, d', evs) \<Rightarrow>
          (case reprocess n b post d' of
             None \<Rightarrow> None
           | Some (d'', evs') \<Rightarrow> Some (d'', evs @ evs')))"

text \<open>
  Notions used to state what a call did: the outcome of a creation request, whether an
  event is a creation request or a write of a PostMapping, and the identifiers that the
  loop records for the creation requests of a list of events (those that succeeded with
  a result of exactly two fields).
\<close>

fun createResult :: "event \<Rightarrow> (error + string) option" where
  "createResult (CreatePostCall text result) = Some result"
| "createResult (CreateReplyCall text parentCid parentUri result) = Some result"
| "createResult (DeletePostCall recordID result) = None"
| "createResult (SavePostMappingCall mastodonID bskyIDs) = None"
| "createResult (SaveContentHashCall postID contentHash) = None"


fun isSavePostMapping :: "event \<Rightarrow> bool" where
  "isSavePostMapping (SavePostMappingCall mastodonID bskyIDs) = True"
| "isSavePostMapping e = False"

fun recordedIDs :: "event list \<Rightarrow> string list" where
  "recordedIDs [] = []"
| "recordedIDs (e # es) =
     (case createResult e of
        Some (Inr result) \<Rightarrow>
          if length (Split result CHR ''|'') = 2 then result # recordedIDs es else recordedIDs es
      | _ \<Rightarrow> recordedIDs es)"

section \<open>Inputs of the examples\<close>

text \<open>
  \<open>spacedBlocks k rest\<close> is \<open>k\<close> words of 147 letters, each followed by a space, before
  \<open>rest\<close>. \<open>overflowInput\<close> has 9 such words and then 1000 letters without a space: 2332
  bytes. \<open>accented\<close> is the letter a followed by 151 times the letter e with an acute
  accent (the two bytes C3 A9): 152 characters in 303 bytes.
\<close>

fun spacedBlocks :: "nat \<Rightarrow> string \<Rightarrow> string" where
  "spacedBlocks 0 rest = rest"
| "spacedBlocks (Suc k) rest = replicate 147 (CHR ''a'') @ CHR '' '' # spacedBlocks k rest"

definition overflowInput :: string where
  "overflowInput = spacedBlocks 9 (replicate 1000 (CHR ''a''))"

definition accented :: string where
  "accented = CHR ''a'' # concat (replicate 151 [CHR 0xC3, CHR 0xA9])"

text \<open>
  An empty database; a Bluesky service that refuses every creation and finds nothing;
  one that creates the first post of a call, with a given URI, and refuses the next; one
  that creates the first two posts of a call, refuses the third and fails to delete the
  first; one that creates every post; a bridge around a client; and posts.
\<close>

definition emptyDatabase :: Database where
  "emptyDatabase = \<lparr>post_mappings = Map.empty, edits = Map.empty, state = Map.empty\<rparr>"

definition refusingClient :: BlueskyClient where
  "refusingClient =
     \<lparr>ensureAuth = None,
      createRecord = (\<lambda>i text reply. Inl (Err ''boom'')),
      deleteRecord = (\<lambda>recordID. None),
      resolveHandle = (\<lambda>handle. Inl (Err ''handle resolution failed with status 400: '')),
      getAuthorFeed = (\<lambda>did. Inr []),
      searchPosts = (\<lambda>q limit. Inr [])\<rparr>"

definition firstThenFail :: "string \<Rightarrow> BlueskyClient" where
  "firstThenFail uri =
     refusingClient\<lparr>createRecord :=
       (\<lambda>i text reply. if i = 0 then Inr (uri, ''c0'') else Inl (Err ''boom''))\<rparr>"

definition secondThenFail :: BlueskyClient where
  "secondThenFail =
     refusingClient\<lparr>
       createRecord :=
         (\<lambda>i text reply. if i = 0 then Inr (''at://did/app.bsky.feed.post/p0'', ''c0'')
                          else if i = 1 then Inr (''at://did/app.bsky.feed.post/p1'', ''c1'')
                          else Inl (Err ''boom'')),
       deleteRecord :=
         (\<lambda>recordID. if recordID = ''p0'' then Some (Err ''post deletion failed with status 500: '')
                      else None)\<rparr>"

definition acceptingClient :: BlueskyClient where
  "acceptingClient =
     refusingClient\<lparr>createRecord :=
       (\<lambda>i text reply. Inr (''at://did/app.bsky.feed.post/new'', ''cid''))\<rparr>"

definition plainPost :: "string \<Rightarrow> string \<Rightarrow> Post" where
  "plainPost postID text =
     \<lparr>ID = postID, Content = text, Reblog = False, Visibility = ''public'', CreatedAt = 0,
      InReplyToID = [], Hashtags = [], OriginalID = [], Username = ''alice'',
      Instance = ''example.social'', DisplayName = ''Alice''\<rparr>"

definition bridgeWith :: "BlueskyClient \<Rightarrow> Bridge" where
  "bridgeWith c =
     \<lparr>FilterHashtag = [], EqualFold = (=), sha256 = (\<lambda>content. 0), bluesky = c,
      GetPostWithEdits = (\<lambda>postID. Inr (plainPost postID ''parent text''))\<rparr>"

text \<open>
  A database in which post 1 is mirrored by one Bluesky post, and post 2, which Mastodon
  reports as an edit of post 1.
\<close>

definition mirroredDatabase :: Database where
  "mirroredDatabase = SavePostMapping emptyDatabase ''1'' [''at://did/app.bsky.feed.post/abc|cid'']"

definition editedPost :: Post where
  "editedPost = (plainPost ''2'' ''hi'')\<lparr>OriginalID := ''1''\<rparr>"

text \<open>A Bluesky service whose search finds one post, by Alice.\<close>

definition bridgedPost :: FoundPost where
  "bridgedPost =
     \<lparr>Uri = ''at://did/app.bsky.feed.post/par'', Cid = ''pc'', AuthorDisplayName = ''Alice'',
      RecordText = ''parent text, bridged'', RecordExternalUrl = [],
      RecordCreatedAt = Inr 5\<rparr>"

definition findingClient :: BlueskyClient where
  "findingClient = refusingClient\<lparr>searchPosts := (\<lambda>q limit. Inr [bridgedPost])\<rparr>"

text \<open>
  Two texts of the same ten words, separated by single spaces in \<open>spacedContent\<close>, the first
  two by a line feed in \<open>newlineContent\<close>; and a Bluesky service whose search answers one
  post, by Alice, to the query \<^verbatim>\<open>hello world this is a long\<close> and fails on any other.
\<close>

definition spacedContent :: string where
  "spacedContent = ''hello world this is a long sentence with many words''"

definition newlineContent :: string where
  "newlineContent = ''hello'' @ [CHR 0x0A] @ ''world this is a long sentence with many words''"

definition normalisedPost :: FoundPost where
  "normalisedPost = bridgedPost\<lparr>RecordText := ''hello world this is a long sentence with many words''\<rparr>"

definition termClient :: BlueskyClient where
  "termClient =
     refusingClient\<lparr>searchPosts :=
       (\<lambda>q limit. if q = ''hello world this is a long'' then Inr [normalisedPost]
                   else Inl (Err ''search failed with status 400: ''))\<rparr>"


section \<open>Properties of splitContent\<close>

subsection \<open>The two scans and the break point\<close>

lemma scanBack_le: "scanBack r b \<le> b"
  by (induction b) auto

lemma scanBack_eq:
  "k \<le> b \<Longrightarrow> k = 0 \<or> r ! k = CHR '' '' \<Longrightarrow>
   (\<forall>i. k < i \<and> i \<le> b \<longrightarrow> r ! i \<noteq> CHR '' '') \<Longrightarrow> scanBack r b = k"
proof (induction b)
  case 0
  then show ?case by simp
next
  case (Suc b)
  show ?case
  proof (cases "k = Suc b")
    case True
    with Suc.prems show ?thesis by auto
  next
    case False
    with Suc.prems have "k \<le> b" by simp
    moreover from Suc.prems False have "r ! Suc b \<noteq> CHR '' ''" by auto
    ultimately show ?thesis using Suc by auto
  qed
qed

lemma scanForward_none:
  "(\<forall>i. start \<le> i \<and> i < stop \<longrightarrow> r ! i \<noteq> CHR '' '') \<Longrightarrow> scanForward r start stop = start"
  by (auto simp: scanForward_def find_None_iff split: option.splits dest!: find_Some_iff[THEN iffD1])

lemma scanForward_range:
  "scanForward r start stop = start \<or>
   (start < scanForward r start stop \<and> scanForward r start stop < stop)"
  unfolding scanForward_def
  by (auto split: option.splits simp: find_Some_iff)

lemma findBreakPoint_le: "findBreakPoint eff r \<le> eff"
  using scanForward_range[of r "eff div 2" "min eff (length r)"] scanBack_le[of r eff]
  by (auto simp: findBreakPoint_def Let_def)

lemma findBreakPoint_ge: "eff div 2 \<le> findBreakPoint eff r"
  using scanForward_range[of r "eff div 2" "min eff (length r)"]
  by (auto simp: findBreakPoint_def Let_def)

lemma advance_length:
  "0 < bp \<Longrightarrow> bp \<le> length r \<Longrightarrow> r \<noteq> [] \<Longrightarrow> length (advance bp r) < length r"
  by (auto simp: advance_def)

lemma advance_decomp:
  "bp \<le> length r \<Longrightarrow>
   take bp r @ (if bp < length r \<and> r ! bp = CHR '' '' then '' '' else []) @ advance bp r = r"
  using id_take_nth_drop[of bp r] by (auto simp: advance_def)

lemma step_consumes:
  assumes "2 \<le> eff" and "eff < length r"
  shows "length (advance (findBreakPoint eff r) r) < length r"
proof -
  from assms(1) have "0 < findBreakPoint eff r"
    using findBreakPoint_ge[of eff r] by simp
  moreover from assms(2) have "findBreakPoint eff r \<le> length r"
    using findBreakPoint_le[of eff r] by simp
  moreover from assms(2) have "r \<noteq> []" by auto
  ultimately show ?thesis by (rule advance_length)
qed

subsection \<open>The suffix and the effective maximum length\<close>

lemma itoa_length_pos: "0 < length (itoa n)"
  by (subst itoa.simps) simp

lemma itoa_length_le: "0 < k \<Longrightarrow> n < 10 ^ k \<Longrightarrow> length (itoa n) \<le> k"
proof (induction k arbitrary: n)
  case 0
  then show ?case by simp
next
  case (Suc k)
  show ?case
  proof (cases "n < 10")
    case True
    then show ?thesis by (subst itoa.simps) simp
  next
    case False
    with Suc.prems have k: "0 < k" by (cases k) auto
    from Suc.prems have "n div 10 < 10 ^ k" by (simp add: less_mult_imp_div_less mult.commute)
    from Suc.IH[OF k this] False show ?thesis by (subst itoa.simps) simp
  qed
qed

lemma suffixSize_eq: "suffixSize c = 4 + 2 * length (itoa (estimatedTotal c))"
  by (simp add: suffixSize_def partSuffix_def)

lemma effectiveMaxLength_le: "effectiveMaxLength c \<le> 294"
  using itoa_length_pos[of "estimatedTotal c"]
  by (simp add: effectiveMaxLength_def suffixSize_eq maxLength_def del: length_greater_0_conv)

lemma effectiveMaxLength_pos_ge2: "0 < effectiveMaxLength c \<Longrightarrow> 2 \<le> effectiveMaxLength c"
  by (simp add: effectiveMaxLength_def suffixSize_eq maxLength_def)

lemma effectiveMaxLength_ge:
  assumes "length c + 299 < 2 ^ 63"
  shows "258 \<le> effectiveMaxLength c"
proof -
  have "estimatedTotal c \<le> length c + 299"
    by (simp add: estimatedTotal_def maxLength_def)
  with assms have "estimatedTotal c < 2 ^ 63" by simp
  also have "(2::nat) ^ 63 < 10 ^ 19" by simp
  finally have "length (itoa (estimatedTotal c)) \<le> 19"
    by (intro itoa_length_le) simp_all
  then show ?thesis
    by (simp add: effectiveMaxLength_def suffixSize_eq maxLength_def)
qed

subsection \<open>The loop returns what its unrolling computes\<close>

lemma splitLoop_chunks:
  "2 \<le> eff \<Longrightarrow> length r \<le> n \<Longrightarrow> splitLoop eff r acc = Some (acc @ chunks n eff r)"
proof (induction n arbitrary: r acc)
  case 0
  then show ?case by (subst splitLoop.simps) simp
next
  case (Suc n)
  show ?case
  proof (cases "r = [] \<or> length r \<le> eff")
    case True
    then show ?thesis by (subst splitLoop.simps) auto
  next
    case False
    let ?bp = "findBreakPoint eff r"
    from False Suc.prems(1) have "length (advance ?bp r) < length r"
      by (intro step_consumes) auto
    with Suc.prems have "length (advance ?bp r) \<le> n" by simp
    from Suc.IH[OF Suc.prems(1) this] False show ?thesis
      by (subst splitLoop.simps) simp
  qed
qed

lemma chunks_length_le: "p \<in> set (chunks n eff r) \<Longrightarrow> length p \<le> eff"
proof (induction n arbitrary: r)
  case 0
  then show ?case by simp
next
  case (Suc n)
  then show ?case
    using findBreakPoint_le[of eff r]
    by (auto split: if_splits)
qed

lemma chunks_nonempty: "0 < n \<Longrightarrow> r \<noteq> [] \<Longrightarrow> chunks n eff r \<noteq> []"
  by (cases n) auto

lemma addIndicatorsFrom_length: "length (addIndicatorsFrom i n ps) = length ps"
  by (induction ps arbitrary: i) auto

lemma addIndicators_nonempty: "ps \<noteq> [] \<Longrightarrow> addIndicators ps \<noteq> []"
  by (cases ps) (auto simp: addIndicators_def)

lemma splitContent_long:
  assumes "300 < length c" and "0 < effectiveMaxLength c"
  shows "splitContent c = Some (addIndicators (chunks (length c) (effectiveMaxLength c) c))"
proof -
  from assms(2) have "2 \<le> effectiveMaxLength c" by (rule effectiveMaxLength_pos_ge2)
  then have "splitLoop (effectiveMaxLength c) c [] = Some ([] @ chunks (length c) (effectiveMaxLength c) c)"
    by (rule splitLoop_chunks) simp
  with assms(1) show ?thesis by (simp add: splitContent_def maxLength_def)
qed

lemma splitContent_short: "length c \<le> 300 \<Longrightarrow> splitContent c = Some [c]"
  by (simp add: splitContent_def maxLength_def)

text \<open>
  C10. \<^verbatim>\<open>splitContent\<close> returns on every input: the effective maximum part length
  computed from a text whose length fits Go's 64-bit \<^verbatim>\<open>int\<close> (with the 299 that the
  estimate adds) is positive; and whenever it is positive, an iteration of the loop that
  is not the last leaves strictly less text than it found, and the function returns a
  list of at least one part.
\<close>

theorem splitContent_terminates:
  "(length content + 299 < 2 ^ 63 \<longrightarrow> 0 < effectiveMaxLength content) \<and>
   (0 < effectiveMaxLength content \<longrightarrow>
      (\<forall>remaining. effectiveMaxLength content < length remaining \<longrightarrow>
         length (advance (findBreakPoint (effectiveMaxLength content) remaining) remaining)
           < length remaining) \<and>
      (\<exists>parts. splitContent content = Some parts \<and> parts \<noteq> []))"
proof (intro conjI impI allI)
  assume "length content + 299 < 2 ^ 63"
  then have "258 \<le> effectiveMaxLength content" by (rule effectiveMaxLength_ge)
  then show "0 < effectiveMaxLength content" by simp
next
  fix remaining :: string
  assume "0 < effectiveMaxLength content" and "effectiveMaxLength content < length remaining"
  then show "length (advance (findBreakPoint (effectiveMaxLength content) remaining) remaining)
      < length remaining"
    by (intro step_consumes effectiveMaxLength_pos_ge2)
next
  assume pos: "0 < effectiveMaxLength content"
  show "\<exists>parts. splitContent content = Some parts \<and> parts \<noteq> []"
  proof (cases "length content \<le> 300")
    case True
    then show ?thesis by (simp add: splitContent_short)
  next
    case False
    then have long: "300 < length content" by simp
    then have "chunks (length content) (effectiveMaxLength content) content \<noteq> []"
      by (intro chunks_nonempty) auto
    with splitContent_long[OF long pos] show ?thesis
      by (simp add: addIndicators_nonempty)
  qed
qed

lemma effectiveMaxLength_301: "effectiveMaxLength (replicate 301 (CHR ''a'')) = 294"
  by (simp add: effectiveMaxLength_def suffixSize_eq estimatedTotal_def maxLength_def itoa.simps)

theorem splitContent_terminates_witness:
  "length (replicate 301 (CHR ''a'')) + 299 < (2::nat) ^ 63 \<and>
   0 < effectiveMaxLength (replicate 301 (CHR ''a'')) \<and>
   effectiveMaxLength (replicate 301 (CHR ''a'')) < length (replicate 301 (CHR ''a'')) \<and>
   length (advance (findBreakPoint (effectiveMaxLength (replicate 301 (CHR ''a'')))
                      (replicate 301 (CHR ''a''))) (replicate 301 (CHR ''a'')))
     < length (replicate 301 (CHR ''a'')) \<and>
   (\<exists>parts. splitContent (replicate 301 (CHR ''a'')) = Some parts \<and> parts \<noteq> [])"
proof -
  let ?c = "replicate 301 (CHR ''a'')"
  from splitContent_terminates[of ?c]
  have step: "\<forall>remaining. 294 < length remaining \<longrightarrow>
      length (advance (findBreakPoint 294 remaining) remaining) < length remaining"
    and ret: "\<exists>parts. splitContent ?c = Some parts \<and> parts \<noteq> []"
    by (simp_all add: effectiveMaxLength_301)
  from step[rule_format, of ?c] ret show ?thesis
    by (simp add: effectiveMaxLength_301)
qed

subsection \<open>Evaluating the loop on text of a known shape\<close>

lemma findBreakPoint_at_space:
  assumes "length u = k" and "eff div 2 \<le> k" and "k \<le> eff" and "0 < k"
    and "CHR '' '' \<notin> set (take (eff - k) v)" and "eff - k \<le> length v"
  shows "findBreakPoint eff (u @ CHR '' '' # v) = k"
proof -
  have "scanBack (u @ CHR '' '' # v) eff = k"
  proof (rule scanBack_eq)
    show "k \<le> eff" by fact
    show "k = 0 \<or> (u @ CHR '' '' # v) ! k = CHR '' ''"
      using assms(1) by (simp add: nth_append)
    show "\<forall>i. k < i \<and> i \<le> eff \<longrightarrow> (u @ CHR '' '' # v) ! i \<noteq> CHR '' ''"
    proof (intro allI impI)
      fix i assume i: "k < i \<and> i \<le> eff"
      then obtain j where j: "i = Suc (k + j)" by (auto dest: less_imp_Suc_add)
      with i have "j < eff - k" by arith
      with assms(6) have "v ! j \<in> set (take (eff - k) v)"
        by (metis (no_types, lifting) in_set_conv_nth length_take min.absorb2 nth_take)
      with assms(5) have "v ! j \<noteq> CHR '' ''" by metis
      moreover have "(u @ CHR '' '' # v) ! i = v ! j"
        using assms(1) by (simp add: j nth_append)
      ultimately show "(u @ CHR '' '' # v) ! i \<noteq> CHR '' ''" by simp
    qed
  qed
  with assms(2) show ?thesis by (simp add: findBreakPoint_def)
qed

lemma findBreakPoint_no_space:
  assumes "2 \<le> eff" and "eff < length r" and "CHR '' '' \<notin> set (take (Suc eff) r)"
  shows "findBreakPoint eff r = eff"
proof -
  have ns: "r ! i \<noteq> CHR '' ''" if "i \<le> eff" for i
  proof -
    from that assms(2) have "r ! i \<in> set (take (Suc eff) r)"
      by (metis (no_types, lifting) in_set_conv_nth le_imp_less_Suc length_take less_or_eq_imp_le min.absorb2 nth_take Suc_leI)
    with assms(3) show ?thesis by metis
  qed
  have "scanBack r eff = 0"
    by (rule scanBack_eq) (auto simp: ns)
  moreover have "scanForward r (eff div 2) (min eff (length r)) = eff div 2"
    by (rule scanForward_none) (auto simp: ns)
  ultimately show ?thesis using assms(1) by (simp add: findBreakPoint_def)
qed

lemma chunks_space_step:
  assumes "0 < n" and "length u = k" and "eff div 2 \<le> k" and "k \<le> eff" and "0 < k"
    and "CHR '' '' \<notin> set (take (eff - k) v)" and "eff - k \<le> length v"
  shows "chunks n eff (u @ CHR '' '' # v) = u # chunks (n - 1) eff v"
proof -
  have bp: "findBreakPoint eff (u @ CHR '' '' # v) = k"
    using assms(2-7) by (rule findBreakPoint_at_space)
  from assms(1) obtain m where n: "n = Suc m" by (cases n) auto
  have "eff < length (u @ CHR '' '' # v)" using assms(2,4,7) by simp
  then show ?thesis
    using assms(2) by (simp add: n bp advance_def nth_append)
qed

lemma chunks_hard_step:
  assumes "0 < n" and "2 \<le> eff" and "eff < length r" and "CHR '' '' \<notin> set (take (Suc eff) r)"
  shows "chunks n eff r = take eff r # chunks (n - 1) eff (drop eff r)"
proof -
  have bp: "findBreakPoint eff r = eff"
    using assms(2-4) by (rule findBreakPoint_no_space)
  from assms(1) obtain m where n: "n = Suc m" by (cases n) auto
  from assms(3) have "r ! eff \<in> set (take (Suc eff) r)"
    by (metis (no_types, lifting) in_set_conv_nth length_take lessI less_or_eq_imp_le min.absorb2 nth_take Suc_leI)
  with assms(4) have "r ! eff \<noteq> CHR '' ''" by metis
  with assms(3) show ?thesis
    by (auto simp: n bp advance_def)
qed

lemma chunks_last: "0 < n \<Longrightarrow> r \<noteq> [] \<Longrightarrow> length r \<le> eff \<Longrightarrow> chunks n eff r = [r]"
  by (cases n) auto

lemma length_spacedBlocks: "length (spacedBlocks k rest) = 148 * k + length rest"
  by (induction k) auto

lemma chunks_spacedBlocks:
  assumes "CHR '' '' \<notin> set (take 147 rest)" and "147 \<le> length rest"
  shows "k \<le> n \<Longrightarrow> chunks n 294 (spacedBlocks k rest)
           = replicate k (replicate 147 (CHR ''a'')) @ chunks (n - k) 294 rest"
proof (induction k arbitrary: n)
  case 0
  then show ?case by simp
next
  case (Suc k)
  let ?v = "spacedBlocks k rest"
  have v: "CHR '' '' \<notin> set (take 147 ?v) \<and> 147 \<le> length ?v"
    using assms by (cases k) (auto simp: length_spacedBlocks)
  from Suc.prems have "chunks n 294 (replicate 147 (CHR ''a'') @ CHR '' '' # ?v)
      = replicate 147 (CHR ''a'') # chunks (n - 1) 294 ?v"
    using v by (intro chunks_space_step[where k = 147]) auto
  moreover from Suc.prems have "k \<le> n - 1" by simp
  ultimately show ?case using Suc.IH[of "n - 1"] by (simp add: replicate_append_same)
qed

subsection \<open>The indicator reserve can be too small\<close>

lemma replicate_9: "replicate 9 x = [x, x, x, x, x, x, x, x, x]"
  by (simp add: numeral_eq_Suc)

lemma length_overflowInput: "length overflowInput = 2332"
  by (simp add: overflowInput_def length_spacedBlocks)

lemma effectiveMaxLength_overflowInput: "effectiveMaxLength overflowInput = 294"
  by (simp add: effectiveMaxLength_def suffixSize_eq estimatedTotal_def maxLength_def
      length_overflowInput itoa.simps)

lemma chunks_letters_1000:
  "chunks 2323 294 (replicate 1000 (CHR ''a'')) =
     [replicate 294 (CHR ''a''), replicate 294 (CHR ''a''), replicate 294 (CHR ''a''),
      replicate 118 (CHR ''a'')]"
proof -
  have "chunks 2323 294 (replicate 1000 (CHR ''a''))
      = replicate 294 (CHR ''a'') # chunks 2322 294 (replicate 706 (CHR ''a''))"
    by (subst chunks_hard_step) simp_all
  also have "chunks 2322 294 (replicate 706 (CHR ''a''))
      = replicate 294 (CHR ''a'') # chunks 2321 294 (replicate 412 (CHR ''a''))"
    by (subst chunks_hard_step) simp_all
  also have "chunks 2321 294 (replicate 412 (CHR ''a''))
      = replicate 294 (CHR ''a'') # chunks 2320 294 (replicate 118 (CHR ''a''))"
    by (subst chunks_hard_step) simp_all
  also have "chunks 2320 294 (replicate 118 (CHR ''a'')) = [replicate 118 (CHR ''a'')]"
    by (rule chunks_last) simp_all
  finally show ?thesis .
qed

lemma chunks_overflowInput:
  "chunks 2332 294 overflowInput =
     replicate 9 (replicate 147 (CHR ''a'')) @
     [replicate 294 (CHR ''a''), replicate 294 (CHR ''a''), replicate 294 (CHR ''a''),
      replicate 118 (CHR ''a'')]"
proof -
  have "chunks 2332 294 (spacedBlocks 9 (replicate 1000 (CHR ''a'')))
      = replicate 9 (replicate 147 (CHR ''a'')) @ chunks (2332 - 9) 294 (replicate 1000 (CHR ''a''))"
    by (rule chunks_spacedBlocks) simp_all
  then show ?thesis by (simp add: overflowInput_def chunks_letters_1000)
qed

lemma splitContent_overflowInput:
  "splitContent overflowInput =
     Some (addIndicators (replicate 9 (replicate 147 (CHR ''a'')) @
       [replicate 294 (CHR ''a''), replicate 294 (CHR ''a''), replicate 294 (CHR ''a''),
        replicate 118 (CHR ''a'')]))"
proof -
  have "splitContent overflowInput
      = Some (addIndicators (chunks (length overflowInput) (effectiveMaxLength overflowInput) overflowInput))"
    by (rule splitContent_long) (simp_all add: length_overflowInput effectiveMaxLength_overflowInput)
  then show ?thesis
    by (simp add: length_overflowInput effectiveMaxLength_overflowInput chunks_overflowInput)
qed

text \<open>
  C1. The parts that \<^verbatim>\<open>splitContent\<close> returns do not all fit in 300 bytes. On
  \<open>overflowInput\<close> the estimate is 9 parts, so 6 bytes are reserved for the indicator and
  a part has up to 294 bytes; the 9 short words make the text need 13 parts, and the
  indicators \<^verbatim>\<open>" (10/13)"\<close> to \<^verbatim>\<open>" (12/13)"\<close> have 8 bytes: parts 10, 11 and 12 have
  302 bytes.
\<close>

theorem splitContent_overflow:
  "map_option (map length) (splitContent overflowInput) =
     Some [154, 154, 154, 154, 154, 154, 154, 154, 154, 302, 302, 302, 126]"
  by (simp add: splitContent_overflowInput replicate_9 addIndicators_def partSuffix_def itoa.simps)

subsection \<open>Rejoining the parts\<close>

lemma chunks_rejoin:
  "2 \<le> eff \<Longrightarrow> length r \<le> n \<Longrightarrow>
   \<exists>seps. length seps = length (chunks n eff r) \<and> set seps \<subseteq> {[], '' ''} \<and>
          concat (map2 (@) (chunks n eff r) seps) = r"
proof (induction n arbitrary: r)
  case 0
  then show ?case by simp
next
  case (Suc n)
  show ?case
  proof (cases "r = [] \<or> length r \<le> eff")
    case True
    then show ?thesis
      by (cases "r = []") (auto intro: exI[of _ "[[]]"])
  next
    case False
    let ?bp = "findBreakPoint eff r"
    let ?sep = "if ?bp < length r \<and> r ! ?bp = CHR '' '' then '' '' else []"
    from False have le: "?bp \<le> length r" using findBreakPoint_le[of eff r] by simp
    from False Suc.prems(1) have "length (advance ?bp r) < length r"
      by (intro step_consumes) auto
    with Suc.prems have "length (advance ?bp r) \<le> n" by simp
    from Suc.IH[OF Suc.prems(1) this] obtain seps where
      seps: "length seps = length (chunks n eff (advance ?bp r))" "set seps \<subseteq> {[], '' ''}"
        "concat (map2 (@) (chunks n eff (advance ?bp r)) seps) = advance ?bp r"
      by blast
    have "concat (map2 (@) (chunks (Suc n) eff r) (?sep # seps)) = take ?bp r @ ?sep @ advance ?bp r"
      using False seps(3) by simp
    also have "\<dots> = r" using advance_decomp[OF le] .
    finally have "concat (map2 (@) (chunks (Suc n) eff r) (?sep # seps)) = r" .
    moreover have "length (?sep # seps) = length (chunks (Suc n) eff r)"
      using False seps(1) by simp
    moreover have "set (?sep # seps) \<subseteq> {[], '' ''}" using seps(2) by auto
    ultimately show ?thesis by blast
  qed
qed

lemma stripIndicatorsFrom_add: "stripIndicatorsFrom i n (addIndicatorsFrom i n ps) = ps"
  by (induction ps arbitrary: i) auto

lemma stripIndicators_add: "stripIndicators (addIndicators ps) = ps"
  by (simp add: stripIndicators_def addIndicators_def addIndicatorsFrom_length stripIndicatorsFrom_add)

lemma chunks_letters_301:
  "chunks 301 294 (replicate 301 (CHR ''a'')) = [replicate 294 (CHR ''a''), replicate 7 (CHR ''a'')]"
proof -
  have "chunks 301 294 (replicate 301 (CHR ''a''))
      = replicate 294 (CHR ''a'') # chunks 300 294 (replicate 7 (CHR ''a''))"
    by (subst chunks_hard_step) simp_all
  also have "chunks 300 294 (replicate 7 (CHR ''a'')) = [replicate 7 (CHR ''a'')]"
    by (rule chunks_last) simp_all
  finally show ?thesis .
qed

lemma splitContent_letters_301:
  "splitContent (replicate 301 (CHR ''a'')) =
     Some (addIndicators [replicate 294 (CHR ''a''), replicate 7 (CHR ''a'')])"
  using splitContent_long[of "replicate 301 (CHR ''a'')"]
  by (simp add: effectiveMaxLength_301 chunks_letters_301)

text \<open>
  C6, as stated, fails: 301 letters without a space are cut after 294 bytes, no space is
  removed, and joining the two stripped parts with a space gives 302 bytes.
\<close>

theorem splitContent_rejoin_counterexample:
  "map_option (\<lambda>parts. Join (stripIndicators parts) '' '') (splitContent (replicate 301 (CHR ''a'')))
     \<noteq> Some (replicate 301 (CHR ''a''))"
proof -
  have "length (replicate 294 (CHR ''a'') @ '' '' @ replicate 7 (CHR ''a'')) \<noteq> length (replicate 301 (CHR ''a''))"
    by simp
  then have "replicate 294 (CHR ''a'') @ '' '' @ replicate 7 (CHR ''a'') \<noteq> replicate 301 (CHR ''a'')"
    by metis
  then show ?thesis
    by (simp add: splitContent_letters_301 stripIndicators_add del: replicate_eq_replicate)
qed

text \<open>
  C6, amended. A text of at most 300 bytes is returned as one part, without indicator.
  For every text of more than 300 bytes (whose length fits Go's \<^verbatim>\<open>int\<close>),
  \<^verbatim>\<open>splitContent\<close> returns parts such that the text is the stripped parts in order, each
  followed by nothing (a cut inside a word) or by the one space that its cut consumed;
  after the last part that space, if any, is a final space of the text.
\<close>

theorem splitContent_rejoin:
  "(length content \<le> 300 \<longrightarrow> splitContent content = Some [content]) \<and>
   (300 < length content \<and> length content + 299 < 2 ^ 63 \<longrightarrow>
      (\<exists>parts seps. splitContent content = Some parts \<and> length seps = length parts \<and>
         set seps \<subseteq> {[], '' ''} \<and> concat (map2 (@) (stripIndicators parts) seps) = content))"
proof (intro conjI impI)
  assume "length content \<le> 300"
  then show "splitContent content = Some [content]" by (rule splitContent_short)
next
  assume long: "300 < length content \<and> length content + 299 < 2 ^ 63"
  let ?eff = "effectiveMaxLength content"
  let ?raw = "chunks (length content) ?eff content"
  from long have "258 \<le> ?eff" by (intro effectiveMaxLength_ge) simp
  then have pos: "0 < ?eff" and two: "2 \<le> ?eff" by simp_all
  from chunks_rejoin[OF two, of content "length content"] obtain seps where
    seps: "length seps = length ?raw" "set seps \<subseteq> {[], '' ''}" "concat (map2 (@) ?raw seps) = content"
    by auto
  have "splitContent content = Some (addIndicators ?raw)"
    using long pos by (intro splitContent_long) simp_all
  moreover have "length seps = length (addIndicators ?raw)"
    using seps(1) by (simp add: addIndicators_def addIndicatorsFrom_length)
  moreover have "concat (map2 (@) (stripIndicators (addIndicators ?raw)) seps) = content"
    using seps(3) by (simp add: stripIndicators_add)
  ultimately show "\<exists>parts seps. splitContent content = Some parts \<and> length seps = length parts \<and>
         set seps \<subseteq> {[], '' ''} \<and> concat (map2 (@) (stripIndicators parts) seps) = content"
    using seps(2) by blast
qed

theorem splitContent_rejoin_witness:
  "length ''abc'' \<le> 300 \<and> splitContent ''abc'' = Some [''abc''] \<and>
   300 < length (replicate 301 (CHR ''a'')) \<and> length (replicate 301 (CHR ''a'')) + 299 < (2::nat) ^ 63 \<and>
   (\<exists>parts seps. splitContent (replicate 301 (CHR ''a'')) = Some parts \<and> length seps = length parts \<and>
      set seps \<subseteq> {[], '' ''} \<and>
      concat (map2 (@) (stripIndicators parts) seps) = replicate 301 (CHR ''a''))"
  using splitContent_rejoin[of "''abc''"] splitContent_rejoin[of "replicate 301 (CHR ''a'')"] by simp

subsection \<open>Bytes, characters and the truncation\<close>

lemma byte_digit: "d < 10 \<Longrightarrow> byte (digit d) = 48 + d"
  by (simp add: byte_def digit_def)

lemma itoa_ascii: "c \<in> set (itoa n) \<Longrightarrow> byte c < 128"
proof (induction n rule: itoa.induct)
  case (1 n)
  show ?case
  proof (cases "n < 10")
    case True
    with "1.prems" have "c = digit n" by (subst (asm) itoa.simps) simp
    with True show ?thesis by (simp add: byte_digit)
  next
    case False
    with "1.prems" have "c \<in> set (itoa (n div 10)) \<or> c = digit (n mod 10)"
      by (subst (asm) itoa.simps) auto
    with False "1.IH" show ?thesis by (auto simp: byte_digit)
  qed
qed

lemma partSuffix_ascii: "c \<in> set (partSuffix i n) \<Longrightarrow> byte c < 128"
  by (auto simp: partSuffix_def byte_def dest: itoa_ascii[unfolded byte_def])

lemma splitLoop_part_length:
  assumes "splitLoop eff r acc = Some ps" and "\<forall>p\<in>set acc. length p \<le> eff"
  shows "\<forall>p\<in>set ps. length p \<le> eff"
proof -
  have "(\<forall>p\<in>set acc. length p \<le> eff) \<longrightarrow> (\<forall>p\<in>set ps. length p \<le> eff)"
  proof (rule splitLoop.raw_induct[where P = "\<lambda>eff r acc ps.
      (\<forall>p\<in>set acc. length p \<le> eff) \<longrightarrow> (\<forall>p\<in>set ps. length p \<le> eff)", OF _ assms(1)])
    fix f :: "nat \<Rightarrow> string \<Rightarrow> string list \<Rightarrow> string list option"
    fix eff remaining parts ps
    assume IH: "\<And>eff remaining parts ps. f eff remaining parts = Some ps \<Longrightarrow>
        (\<forall>p\<in>set parts. length p \<le> eff) \<longrightarrow> (\<forall>p\<in>set ps. length p \<le> eff)"
    assume eq: "(if 0 < length remaining
         then if length remaining \<le> eff then Some (parts @ [remaining])
              else f eff (advance (findBreakPoint eff remaining) remaining)
                     (parts @ [take (findBreakPoint eff remaining) remaining])
         else Some parts) = Some ps"
    show "(\<forall>p\<in>set parts. length p \<le> eff) \<longrightarrow> (\<forall>p\<in>set ps. length p \<le> eff)"
    proof (cases "0 < length remaining \<and> \<not> length remaining \<le> eff")
      case False
      with eq show ?thesis by (auto split: if_splits)
    next
      case True
      with eq have "f eff (advance (findBreakPoint eff remaining) remaining)
           (parts @ [take (findBreakPoint eff remaining) remaining]) = Some ps"
        by simp
      from IH[OF this] show ?thesis
        using findBreakPoint_le[of eff remaining] by auto
    qed
  qed
  with assms(2) show ?thesis by simp
qed

lemma addIndicatorsFrom_set:
  "p \<in> set (addIndicatorsFrom i n raws) \<Longrightarrow> \<exists>raw j. raw \<in> set raws \<and> p = raw @ partSuffix j n"
proof (induction raws arbitrary: i)
  case Nil
  then show ?case by simp
next
  case (Cons a raws)
  from Cons.prems have "p = a @ partSuffix (i + 1) n \<or> p \<in> set (addIndicatorsFrom (i + 1) n raws)"
    by simp
  then show ?case
  proof
    assume "p = a @ partSuffix (i + 1) n"
    then show ?thesis by auto
  next
    assume "p \<in> set (addIndicatorsFrom (i + 1) n raws)"
    from Cons.IH[OF this] show ?thesis by auto
  qed
qed

lemma splitContent_part_shape:
  assumes "splitContent content = Some parts" and "p \<in> set parts" and "300 < length p"
  shows "\<exists>raw j n. length raw \<le> 294 \<and> p = raw @ partSuffix j n"
proof (cases "length content \<le> 300")
  case True
  with assms show ?thesis by (auto simp: splitContent_short)
next
  case False
  with assms(1) obtain raws where
    raws: "splitLoop (effectiveMaxLength content) content [] = Some raws" "parts = addIndicators raws"
    by (auto simp: splitContent_def maxLength_def)
  from assms(2) raws(2) obtain raw j where
    raw: "raw \<in> set raws" "p = raw @ partSuffix j (length raws)"
    by (auto simp: addIndicators_def dest: addIndicatorsFrom_set)
  from splitLoop_part_length[OF raws(1)] raw(1) have "length raw \<le> effectiveMaxLength content"
    by simp
  with effectiveMaxLength_le[of content] have "length raw \<le> 294" by simp
  with raw(2) show ?thesis by blast
qed

lemma overlong_tail_ascii:
  assumes "splitContent content = Some parts" and "p \<in> set parts" and "300 < length p"
    and "294 \<le> i" and "i < length p"
  shows "byte (p ! i) < 128"
proof -
  from splitContent_part_shape[OF assms(1-3)] obtain raw j n where
    shape: "length raw \<le> 294" "p = raw @ partSuffix j n"
    by blast
  with assms(4,5) have "p ! i = partSuffix j n ! (i - length raw)" and "i - length raw < length (partSuffix j n)"
    by (auto simp: nth_append)
  then have "p ! i \<in> set (partSuffix j n)" by simp
  then show ?thesis by (rule partSuffix_ascii)
qed

lemma advance_length_ge: "length r - bp - 1 \<le> length (advance bp r)"
  by (auto simp: advance_def)

lemma chunks_two:
  assumes "2 \<le> eff" and "eff \<le> 294" and "300 < length r" and "length r \<le> n"
  shows "2 \<le> length (chunks n eff r)"
proof -
  from assms(3,4) obtain m where n: "n = Suc m" and m: "0 < m" by (cases n) auto
  let ?bp = "findBreakPoint eff r"
  have "?bp \<le> 294" using findBreakPoint_le[of eff r] assms(2) by simp
  with assms(3) have "6 \<le> length (advance ?bp r)"
    using advance_length_ge[of r ?bp] by arith
  then have "advance ?bp r \<noteq> []" by auto
  then have "chunks m eff (advance ?bp r) \<noteq> []"
    using m by (intro chunks_nonempty)
  then have "1 \<le> length (chunks m eff (advance ?bp r))"
    by (cases "chunks m eff (advance ?bp r)") auto
  with assms(2,3) show ?thesis by (auto simp: n)
qed

lemma accented_facts: "utf8WellFormed accented \<and> RuneCount accented = 152 \<and> length accented = 303"
  by code_simp

lemma accented_no_space: "CHR '' '' \<notin> set accented"
  by (simp add: accented_def)

lemma effectiveMaxLength_accented: "effectiveMaxLength accented = 294"
  by (simp add: effectiveMaxLength_def suffixSize_eq estimatedTotal_def maxLength_def
      accented_facts itoa.simps)

lemma chunks_accented: "chunks 303 294 accented = [take 294 accented, drop 294 accented]"
proof -
  have "chunks 303 294 accented = take 294 accented # chunks (303 - 1) 294 (drop 294 accented)"
    using accented_no_space by (intro chunks_hard_step) (auto simp: accented_facts dest: in_set_takeD)
  also have "chunks (303 - 1) 294 (drop 294 accented) = [drop 294 accented]"
    by (rule chunks_last) (simp_all add: accented_facts)
  finally show ?thesis .
qed

lemma splitContent_accented:
  "splitContent accented = Some [take 294 accented @ partSuffix 1 2, drop 294 accented @ partSuffix 2 2]"
  using splitContent_long[of accented]
  by (simp add: accented_facts effectiveMaxLength_accented chunks_accented addIndicators_def numeral_2_eq_2)

lemma accented_part_ill_formed: "\<not> utf8WellFormed (take 294 accented @ partSuffix 1 2)"
  by code_simp

lemma truncatePart_shape:
  assumes "length raw \<le> 294" and "300 < length (raw @ sfx)"
  shows "truncatePart (raw @ sfx) = raw @ take (297 - length raw) sfx @ ''...''"
  using assms by (simp add: truncatePart_def)

lemma addIndicatorsFrom_nth:
  "i < length ps \<Longrightarrow> addIndicatorsFrom j n ps ! i = ps ! i @ partSuffix (j + i + 1) n"
proof (induction ps arbitrary: i j)
  case Nil
  then show ?case by simp
next
  case (Cons a ps)
  then show ?case by (cases i) auto
qed

text \<open>
  C9, as stated, fails in its last clause: the truncation never cuts inside a character.
  A part of more than 300 bytes is at most 294 bytes of text followed by its ASCII
  indicator, so the byte at index 297, the first that the truncation drops, is never a
  continuation byte.
\<close>

theorem truncation_cut_counterexample:
  "\<not> (\<exists>content parts p. splitContent content = Some parts \<and> p \<in> set parts \<and> 300 < length p \<and>
        isContinuation (p ! 297))"
proof
  assume "\<exists>content parts p. splitContent content = Some parts \<and> p \<in> set parts \<and> 300 < length p \<and>
        isContinuation (p ! 297)"
  then obtain content parts p where
    p: "splitContent content = Some parts" "p \<in> set parts" "300 < length p" and
    cont: "isContinuation (p ! 297)"
    by blast
  from p have "byte (p ! 297) < 128" by (intro overlong_tail_ascii[of content parts p]) simp_all
  with cont show False by (simp add: isContinuation_def)
qed

text \<open>
  C9, amended. The limits are measured in bytes: a text of at most 300 bytes is returned
  whole, a longer one (whose length fits Go's \<^verbatim>\<open>int\<close>) is split in at least two parts,
  and \<open>accented\<close>, 152 characters in 303 bytes, is split. It is the cut of
  \<^verbatim>\<open>splitContent\<close> at the window boundary that can fall inside a character: the
  first part of \<open>accented\<close> is not well-formed UTF-8. The truncation takes the first 297
  bytes and adds \<^verbatim>\<open>"..."\<close>; on every part of more than 300 bytes that \<^verbatim>\<open>splitContent\<close>
  returns it keeps the whole text of the part and cuts inside the ASCII indicator.
\<close>

theorem byte_limits:
  "(length short \<le> 300 \<longrightarrow> splitContent short = Some [short]) \<and>
   (300 < length long \<and> length long + 299 < 2 ^ 63 \<longrightarrow>
      (\<exists>parts. splitContent long = Some parts \<and> 2 \<le> length parts)) \<and>
   (RuneCount accented \<le> 300 \<and> utf8WellFormed accented \<and> 300 < length accented \<and>
      (\<exists>p1 p2. splitContent accented = Some [p1, p2] \<and> \<not> utf8WellFormed p1)) \<and>
   truncatePart part = (if 300 < length part then take 297 part @ ''...'' else part) \<and>
   (splitContent content = Some parts \<and> p \<in> set parts \<and> 300 < length p \<longrightarrow>
      (\<exists>raw j n. length raw \<le> 294 \<and> p = raw @ partSuffix j n \<and>
         truncatePart p = raw @ take (297 - length raw) (partSuffix j n) @ ''...'') \<and>
      (\<forall>i. 294 \<le> i \<and> i < length p \<longrightarrow> byte (p ! i) < 128))"
proof (intro conjI impI)
  assume "length short \<le> 300"
  then show "splitContent short = Some [short]" by (rule splitContent_short)
next
  assume long: "300 < length long \<and> length long + 299 < 2 ^ 63"
  then have "258 \<le> effectiveMaxLength long" by (intro effectiveMaxLength_ge) simp
  then have pos: "0 < effectiveMaxLength long" and two: "2 \<le> effectiveMaxLength long" by simp_all
  from long pos have "splitContent long
      = Some (addIndicators (chunks (length long) (effectiveMaxLength long) long))"
    by (intro splitContent_long) simp_all
  moreover from two long have "2 \<le> length (chunks (length long) (effectiveMaxLength long) long)"
    by (intro chunks_two effectiveMaxLength_le) simp_all
  ultimately show "\<exists>parts. splitContent long = Some parts \<and> 2 \<le> length parts"
    by (simp add: addIndicators_def addIndicatorsFrom_length)
next
  show "RuneCount accented \<le> 300" "utf8WellFormed accented" "300 < length accented"
    by (simp_all add: accented_facts)
next
  show "\<exists>p1 p2. splitContent accented = Some [p1, p2] \<and> \<not> utf8WellFormed p1"
    using splitContent_accented accented_part_ill_formed by blast
next
  show "truncatePart part = (if 300 < length part then take 297 part @ ''...'' else part)"
    by (simp add: truncatePart_def)
next
  assume p: "splitContent content = Some parts \<and> p \<in> set parts \<and> 300 < length p"
  then obtain raw j n where shape: "length raw \<le> 294" "p = raw @ partSuffix j n"
    using splitContent_part_shape[of content parts p] by blast
  with p have "truncatePart p = raw @ take (297 - length raw) (partSuffix j n) @ ''...''"
    by (simp add: truncatePart_shape)
  with shape show "\<exists>raw j n. length raw \<le> 294 \<and> p = raw @ partSuffix j n \<and>
         truncatePart p = raw @ take (297 - length raw) (partSuffix j n) @ ''...''"
    by blast
next
  assume p: "splitContent content = Some parts \<and> p \<in> set parts \<and> 300 < length p"
  show "\<forall>i. 294 \<le> i \<and> i < length p \<longrightarrow> byte (p ! i) < 128"
    using p overlong_tail_ascii[of content parts p] by blast
qed

theorem byte_limits_witness:
  "length ''abc'' \<le> 300 \<and> splitContent ''abc'' = Some [''abc''] \<and>
   300 < length (replicate 301 (CHR ''a'')) \<and> length (replicate 301 (CHR ''a'')) + 299 < (2::nat) ^ 63 \<and>
   (\<exists>parts. splitContent (replicate 301 (CHR ''a'')) = Some parts \<and> 2 \<le> length parts) \<and>
   (\<exists>parts. splitContent overflowInput = Some parts \<and>
      replicate 294 (CHR ''a'') @ partSuffix 10 13 \<in> set parts \<and>
      300 < length (replicate 294 (CHR ''a'') @ partSuffix 10 13) \<and>
      294 \<le> (297::nat) \<and> 297 < length (replicate 294 (CHR ''a'') @ partSuffix 10 13) \<and>
      byte ((replicate 294 (CHR ''a'') @ partSuffix 10 13) ! 297) < 128)"
proof -
  let ?parts = "addIndicators (replicate 9 (replicate 147 (CHR ''a'')) @
       [replicate 294 (CHR ''a''), replicate 294 (CHR ''a''), replicate 294 (CHR ''a''),
        replicate 118 (CHR ''a'')])"
  let ?p = "replicate 294 (CHR ''a'') @ partSuffix 10 13"
  have "?parts ! 9 = ?p"
    by (simp add: addIndicators_def addIndicatorsFrom_nth nth_append)
  moreover have "9 < length ?parts"
    by (simp add: addIndicators_def addIndicatorsFrom_length)
  ultimately have mem: "?p \<in> set ?parts"
    by (metis nth_mem)
  have len: "300 < length ?p"
    by (simp add: partSuffix_def itoa.simps)
  note inst = byte_limits[of "''abc''" "replicate 301 (CHR ''a'')" "[]" overflowInput ?parts ?p]
  from inst have "splitContent ''abc'' = Some [''abc'']" by simp
  moreover from inst have "\<exists>parts. splitContent (replicate 301 (CHR ''a'')) = Some parts \<and> 2 \<le> length parts"
    by simp
  moreover from inst splitContent_overflowInput mem len
  have "\<forall>i. 294 \<le> i \<and> i < length ?p \<longrightarrow> byte (?p ! i) < 128"
    by blast
  then have "byte (?p ! 297) < 128" using len by simp
  ultimately show ?thesis using splitContent_overflowInput mem len by simp
qed

section \<open>Properties of the database\<close>

text \<open>
  C8. \<^verbatim>\<open>CheckIfEdit\<close> is not read-only: when the supplied \<open>originalID\<close> is non-empty and
  differs from the post id, it returns \<open>(originalID, true)\<close> and leaves the database with
  the row \<open>mastodonID \<mapsto> originalID\<close> inserted or overwritten in the edits table, and
  nothing else changed; in every other case it leaves the database as it was.
\<close>

theorem CheckIfEdit_effect:
  "(originalID \<noteq> [] \<and> originalID \<noteq> mastodonID \<longrightarrow>
      CheckIfEdit d mastodonID originalID
        = ((originalID, True), d\<lparr>edits := (edits d)(mastodonID \<mapsto> originalID)\<rparr>)) \<and>
   (\<not> (originalID \<noteq> [] \<and> originalID \<noteq> mastodonID) \<longrightarrow>
      snd (CheckIfEdit d mastodonID originalID) = d)"
  by (auto simp: CheckIfEdit_def MarkAsEdit_def split: option.splits)

theorem CheckIfEdit_effect_witness:
  "''1'' \<noteq> [] \<and> ''1'' \<noteq> ''2'' \<and>
   CheckIfEdit emptyDatabase ''2'' ''1''
     = ((''1'', True), emptyDatabase\<lparr>edits := (edits emptyDatabase)(''2'' \<mapsto> ''1'')\<rparr>) \<and>
   \<not> (''1'' \<noteq> [] \<and> ''1'' \<noteq> ''1'') \<and>
   snd (CheckIfEdit emptyDatabase ''1'' ''1'') = emptyDatabase"
  using CheckIfEdit_effect[of "''1''" "''2''" emptyDatabase]
    CheckIfEdit_effect[of "''1''" "''1''" emptyDatabase]
  by simp

section \<open>Properties of ProcessPost\<close>

lemma length_hexN: "length (hexN k v) = k"
  by (induction k arbitrary: v) auto

lemma length_hashPostContent: "length (hashPostContent b content) = 64"
  by (simp add: hashPostContent_def length_hexN)

lemma ProcessPost_fp_unchanged:
  assumes "GetContentHash d (ID post) = hashPostContent b (Content post)"
  shows "ProcessPost_fp b post d = Some (Returned None, d, [])"
  using assms by (simp add: ProcessPost_fp_def length_hashPostContent)

text \<open>
  C4. When the stored fingerprint of a post equals the hash of its content, processing
  the post (revision of part_000) does nothing: it returns \<^verbatim>\<open>nil\<close>, makes no request to
  Bluesky and leaves the database, hence the PostMapping, as it was; and so does
  processing it any number \<open>n\<close> of times in a row.
\<close>

theorem unchanged_content_no_action:
  assumes "GetContentHash d (ID post) = hashPostContent b (Content post)"
  shows "ProcessPost_fp b post d = Some (Returned None, d, []) \<and> reprocess n b post d = Some (d, [])"
proof
  show first: "ProcessPost_fp b post d = Some (Returned None, d, [])"
    using assms by (rule ProcessPost_fp_unchanged)
  show "reprocess n b post d = Some (d, [])"
    by (induction n) (simp_all add: first)
qed

theorem unchanged_content_no_action_witness:
  "GetContentHash
     (SaveContentHash emptyDatabase ''1'' (hashPostContent (bridgeWith refusingClient) ''hello''))
     (ID (plainPost ''1'' ''hello''))
     = hashPostContent (bridgeWith refusingClient) (Content (plainPost ''1'' ''hello'')) \<and>
   ProcessPost_fp (bridgeWith refusingClient) (plainPost ''1'' ''hello'')
     (SaveContentHash emptyDatabase ''1'' (hashPostContent (bridgeWith refusingClient) ''hello''))
     = Some (Returned None,
             SaveContentHash emptyDatabase ''1'' (hashPostContent (bridgeWith refusingClient) ''hello''),
             []) \<and>
   reprocess 3 (bridgeWith refusingClient) (plainPost ''1'' ''hello'')
     (SaveContentHash emptyDatabase ''1'' (hashPostContent (bridgeWith refusingClient) ''hello''))
     = Some (SaveContentHash emptyDatabase ''1'' (hashPostContent (bridgeWith refusingClient) ''hello''), [])"
proof -
  have stored: "GetContentHash
     (SaveContentHash emptyDatabase ''1'' (hashPostContent (bridgeWith refusingClient) ''hello''))
     (ID (plainPost ''1'' ''hello''))
     = hashPostContent (bridgeWith refusingClient) (Content (plainPost ''1'' ''hello''))"
    by (simp add: GetContentHash_def SaveContentHash_def plainPost_def)
  from unchanged_content_no_action[OF stored, of 3] stored show ?thesis by simp
qed





lemma cleanupCreated_events: "e \<in> set (cleanupCreated c ids) \<Longrightarrow> createResult e = None \<and> \<not> isSavePostMapping e"
  by (auto simp: cleanupCreated_def split: list.splits)

lemma createPart_result:
  "createPart c parentUri parentCid i part lastUri lastCid = (r, ev) \<Longrightarrow> createResult ev = Some r"
  by (auto simp: createPart_def split: if_splits)

lemma recordedIDs_append: "recordedIDs (xs @ ys) = recordedIDs xs @ recordedIDs ys"
  by (induction xs) (auto split: option.splits sum.splits)

lemma createParts_failed:
  "createParts c parentUri parentCid i parts lastUri lastCid bskyIDs = (Inl err, evs) \<Longrightarrow>
   \<exists>pre ev. evs = pre @ ev # cleanupCreated c (bskyIDs @ recordedIDs pre) \<and>
            createResult ev = Some (Inl err) \<and>
            (\<forall>e\<in>set pre. \<exists>r. createResult e = Some (Inr r))"
proof (induction parts arbitrary: i lastUri lastCid bskyIDs evs)
  case Nil
  then show ?case by simp
next
  case (Cons part parts)
  obtain r ev where cp: "createPart c parentUri parentCid i (truncatePart part) lastUri lastCid = (r, ev)"
    by (cases "createPart c parentUri parentCid i (truncatePart part) lastUri lastCid")
  then have res: "createResult ev = Some r" by (rule createPart_result)
  show ?case
  proof (cases r)
    case (Inl e)
    with Cons.prems cp have "evs = [] @ ev # cleanupCreated c (bskyIDs @ recordedIDs [])" and "e = err"
      by simp_all
    with res Inl show ?thesis by (metis empty_iff list.set(1))
  next
    case (Inr result)
    show ?thesis
    proof (cases "length (Split result CHR ''|'') \<noteq> 2")
      case True
      with Cons.prems cp Inr obtain evs' where
        rec: "createParts c parentUri parentCid (i + 1) parts lastUri lastCid bskyIDs = (Inl err, evs')"
        and evs: "evs = ev # evs'"
        by (auto split: prod.splits)
      from Cons.IH[OF rec] obtain pre ev' where
        "evs' = pre @ ev' # cleanupCreated c (bskyIDs @ recordedIDs pre)"
        "createResult ev' = Some (Inl err)" "\<forall>e\<in>set pre. \<exists>r. createResult e = Some (Inr r)"
        by blast
      with evs res Inr True have
        "evs = (ev # pre) @ ev' # cleanupCreated c (bskyIDs @ recordedIDs (ev # pre))"
        "createResult ev' = Some (Inl err)" "\<forall>e\<in>set (ev # pre). \<exists>r. createResult e = Some (Inr r)"
        by auto
      then show ?thesis by blast
    next
      case False
      with Cons.prems cp Inr obtain evs' where
        rec: "createParts c parentUri parentCid (i + 1) parts (Split result CHR ''|'' ! 0)
                (Split result CHR ''|'' ! 1) (bskyIDs @ [result]) = (Inl err, evs')"
        and evs: "evs = ev # evs'"
        by (auto split: prod.splits)
      from Cons.IH[OF rec] obtain pre ev' where
        "evs' = pre @ ev' # cleanupCreated c ((bskyIDs @ [result]) @ recordedIDs pre)"
        "createResult ev' = Some (Inl err)" "\<forall>e\<in>set pre. \<exists>r. createResult e = Some (Inr r)"
        by blast
      with evs res Inr False have
        "evs = (ev # pre) @ ev' # cleanupCreated c (bskyIDs @ recordedIDs (ev # pre))"
        "createResult ev' = Some (Inl err)" "\<forall>e\<in>set (ev # pre). \<exists>r. createResult e = Some (Inr r)"
        by auto
      then show ?thesis by blast
    qed
  qed
qed

lemma createParts_succeeded:
  "createParts c parentUri parentCid i parts lastUri lastCid bskyIDs = (Inr ids, evs) \<Longrightarrow>
   ids = bskyIDs @ recordedIDs evs \<and> length evs = length parts \<and>
   (\<forall>e\<in>set evs. \<exists>r. createResult e = Some (Inr r))"
proof (induction parts arbitrary: i lastUri lastCid bskyIDs evs)
  case Nil
  then show ?case by simp
next
  case (Cons part parts)
  obtain r ev where cp: "createPart c parentUri parentCid i (truncatePart part) lastUri lastCid = (r, ev)"
    by (cases "createPart c parentUri parentCid i (truncatePart part) lastUri lastCid")
  then have res: "createResult ev = Some r" by (rule createPart_result)
  show ?case
  proof (cases r)
    case (Inl e)
    with Cons.prems cp show ?thesis by simp
  next
    case (Inr result)
    show ?thesis
    proof (cases "length (Split result CHR ''|'') \<noteq> 2")
      case True
      with Cons.prems cp Inr obtain evs' where
        rec: "createParts c parentUri parentCid (i + 1) parts lastUri lastCid bskyIDs = (Inr ids, evs')"
        and evs: "evs = ev # evs'"
        by (auto split: prod.splits)
      from Cons.IH[OF rec] evs res Inr True show ?thesis by auto
    next
      case False
      with Cons.prems cp Inr obtain evs' where
        rec: "createParts c parentUri parentCid (i + 1) parts (Split result CHR ''|'' ! 0)
                (Split result CHR ''|'' ! 1) (bskyIDs @ [result]) = (Inr ids, evs')"
        and evs: "evs = ev # evs'"
        by (auto split: prod.splits)
      from Cons.IH[OF rec] evs res Inr False show ?thesis by auto
    qed
  qed
qed

subsection \<open>The creation loop and the runs of ProcessPost\<close>

lemma createThread_failed:
  assumes "createThread c parentUri parentCid parts = (Inl err, evs)"
  shows "\<exists>pre ev. evs = pre @ ev # cleanupCreated c (recordedIDs pre) \<and>
            createResult ev = Some (Inl err) \<and>
            (\<forall>e\<in>set pre. \<exists>r. createResult e = Some (Inr r))"
  using assms createParts_failed[of c parentUri parentCid 0 parts _ _ "[]" err evs]
  by (auto simp: createThread_def split: if_splits)

lemma createThread_succeeded:
  assumes "createThread c parentUri parentCid parts = (Inr ids, evs)"
  shows "ids = recordedIDs evs \<and> length evs = length parts \<and>
         (\<forall>e\<in>set evs. \<exists>r. createResult e = Some (Inr r))"
  using assms createParts_succeeded[of c parentUri parentCid 0 parts _ _ "[]" ids evs]
  by (auto simp: createThread_def split: if_splits)

lemma recordedIDs_no_create: "(\<forall>e\<in>set xs. createResult e = None) \<Longrightarrow> recordedIDs xs = []"
  by (induction xs) auto

lemma deletePrevious_events:
  "e \<in> set (deletePrevious c d origPostID) \<Longrightarrow> createResult e = None \<and> \<not> isSavePostMapping e"
  by (auto simp: deletePrevious_def split: sum.splits)

lemma deleteExisting_no_create:
  "e \<in> set (deleteExisting c d postID) \<Longrightarrow> createResult e = None \<and> \<not> isSavePostMapping e"
  by (auto simp: deleteExisting_def split: sum.splits if_splits)

lemma CheckIfEdit_post_mappings:
  "CheckIfEdit d mastodonID originalID = (r, d1) \<Longrightarrow> post_mappings d1 = post_mappings d"
  by (auto simp: CheckIfEdit_def MarkAsEdit_def split: if_splits option.splits)

text \<open>The shapes of a run of either revision.\<close>

lemma ProcessPost_run:
  assumes run: "ProcessPost b post d = Some (out, d', evs)"
  obtains
    (skipped) "Reblog post \<or> Visibility post \<noteq> ''public'' \<or>
               (FilterHashtag b \<noteq> [] \<and> \<not> hasFilterTag b post)"
      "out = Returned None" "d' = d" "evs = []"
  | (failed) parentUri parentCid origPostID isEdit d1 parts err created where
      "\<not> Reblog post" "Visibility post = ''public''" "FilterHashtag b = [] \<or> hasFilterTag b post"
      "CheckIfEdit d (ID post) (OriginalID post) = ((origPostID, isEdit), d1)"
      "splitContent (Content post) = Some parts"
      "createThread (bluesky b) parentUri parentCid parts = (Inl err, created)"
      "out = Returned (Some err)" "d' = d1"
      "evs = (if isEdit then deletePrevious (bluesky b) d1 origPostID else []) @ created"
  | (succeeded) parentUri parentCid origPostID isEdit d1 parts bskyIDs created where
      "\<not> Reblog post" "Visibility post = ''public''" "FilterHashtag b = [] \<or> hasFilterTag b post"
      "CheckIfEdit d (ID post) (OriginalID post) = ((origPostID, isEdit), d1)"
      "splitContent (Content post) = Some parts"
      "createThread (bluesky b) parentUri parentCid parts = (Inr bskyIDs, created)"
      "out = Returned None"
      "d' = (if isEdit \<and> origPostID \<noteq> ID post
             then SavePostMapping (SavePostMapping d1 (ID post) bskyIDs) origPostID bskyIDs
             else SavePostMapping d1 (ID post) bskyIDs)"
      "evs = (if isEdit then deletePrevious (bluesky b) d1 origPostID else []) @ created @
             (SavePostMappingCall (ID post) bskyIDs #
              (if isEdit \<and> origPostID \<noteq> ID post then [SavePostMappingCall origPostID bskyIDs] else []))"
proof (cases "Reblog post \<or> Visibility post \<noteq> ''public'' \<or>
               (FilterHashtag b \<noteq> [] \<and> \<not> hasFilterTag b post)")
  case True
  with run have "out = Returned None" "d' = d" "evs = []"
    by (auto simp: ProcessPost_def split: if_splits)
  with True show ?thesis by (rule skipped)
next
  case False
  obtain parentUri parentCid where op: "ownParent d post = (parentUri, parentCid)"
    by (cases "ownParent d post")
  obtain origPostID isEdit d1 where
    ce: "CheckIfEdit d (ID post) (OriginalID post) = ((origPostID, isEdit), d1)"
    by (metis prod.exhaust)
  from run False op ce obtain parts where sc: "splitContent (Content post) = Some parts"
    by (cases "splitContent (Content post)") (auto simp: ProcessPost_def)
  obtain r created where ct: "createThread (bluesky b) parentUri parentCid parts = (r, created)"
    by (cases "createThread (bluesky b) parentUri parentCid parts")
  show ?thesis
  proof (cases r)
    case (Inl err)
    with run False op ce sc ct have
      "out = Returned (Some err)" "d' = d1"
      "evs = (if isEdit then deletePrevious (bluesky b) d1 origPostID else []) @ created"
      by (auto simp: ProcessPost_def)
    with False ce sc ct Inl show ?thesis by (intro failed) auto
  next
    case (Inr bskyIDs)
    with run False op ce sc ct have
      "out = Returned None"
      "d' = (if isEdit \<and> origPostID \<noteq> ID post
             then SavePostMapping (SavePostMapping d1 (ID post) bskyIDs) origPostID bskyIDs
             else SavePostMapping d1 (ID post) bskyIDs)"
      "evs = (if isEdit then deletePrevious (bluesky b) d1 origPostID else []) @ created @
             (SavePostMappingCall (ID post) bskyIDs #
              (if isEdit \<and> origPostID \<noteq> ID post then [SavePostMappingCall origPostID bskyIDs] else []))"
      by (auto simp: ProcessPost_def split: if_splits)
    with False ce sc ct Inr show ?thesis by (intro succeeded) auto
  qed
qed

lemma ProcessPost_fp_run:
  assumes run: "ProcessPost_fp b post d = Some (out, d', evs)"
  obtains
    (skipped) "d' = d" "\<forall>e\<in>set evs. createResult e = None \<and> \<not> isSavePostMapping e"
  | (failed) parentUri parentCid parts deleted err created where
      "\<forall>e\<in>set deleted. createResult e = None \<and> \<not> isSavePostMapping e"
      "createThread (bluesky b) parentUri parentCid parts = (Inl err, created)"
      "out = Returned (Some err)" "d' = d" "evs = deleted @ created"
  | (succeeded) parentUri parentCid parts deleted bskyIDs created where
      "\<forall>e\<in>set deleted. createResult e = None \<and> \<not> isSavePostMapping e"
      "createThread (bluesky b) parentUri parentCid parts = (Inr bskyIDs, created)"
      "out = Returned None"
      "evs = deleted @ created @
             [SavePostMappingCall (ID post) bskyIDs,
              SaveContentHashCall (ID post) (hashPostContent b (Content post))]"
proof -
  let ?existing = "GetContentHash d (ID post)"
  let ?deleted = "if ?existing \<noteq> [] then deleteExisting (bluesky b) d (ID post) else []"
  have del: "\<forall>e\<in>set ?deleted. createResult e = None \<and> \<not> isSavePostMapping e"
    by (auto dest: deleteExisting_no_create)
  show ?thesis
  proof (cases "Reblog post \<or> Visibility post \<noteq> ''public'' \<or>
               (FilterHashtag b \<noteq> [] \<and> \<not> hasFilterTag b post) \<or>
               ?existing = hashPostContent b (Content post) \<or>
               (?existing \<noteq> [] \<and> length ?existing < 8) \<or>
               resolveParent b d post = None")
    case True
    with run del have "d' = d" "\<forall>e\<in>set evs. createResult e = None \<and> \<not> isSavePostMapping e"
      by (auto simp: ProcessPost_fp_def length_hashPostContent split: if_splits)
    then show ?thesis by (rule skipped)
  next
    case False
    then obtain parentUri parentCid where rp: "resolveParent b d post = Some (parentUri, parentCid)"
      by auto
    from run False rp obtain parts where sc: "splitContent (Content post) = Some parts"
      by (cases "splitContent (Content post)") (auto simp: ProcessPost_fp_def length_hashPostContent)
    obtain r created where ct: "createThread (bluesky b) parentUri parentCid parts = (r, created)"
      by (cases "createThread (bluesky b) parentUri parentCid parts")
    show ?thesis
    proof (cases r)
      case (Inl err)
      with run False rp sc ct have "out = Returned (Some err)" "d' = d" "evs = ?deleted @ created"
        by (auto simp: ProcessPost_fp_def length_hashPostContent)
      with del ct Inl show ?thesis by (intro failed[of ?deleted]) auto
    next
      case (Inr bskyIDs)
      with run False rp sc ct have "out = Returned None"
        "evs = ?deleted @ created @
             [SavePostMappingCall (ID post) bskyIDs,
              SaveContentHashCall (ID post) (hashPostContent b (Content post))]"
        by (auto simp: ProcessPost_fp_def length_hashPostContent)
      with del ct Inr show ?thesis by (intro succeeded[of ?deleted]) auto
    qed
  qed
qed

subsection \<open>Failure of a creation request\<close>

lemma createResult_Some_not_save: "createResult e = Some r \<Longrightarrow> \<not> isSavePostMapping e"
  by (cases e) auto

lemma failure_shape:
  assumes del: "\<forall>e\<in>set deleted. createResult e = None \<and> \<not> isSavePostMapping e"
    and ct: "createThread c parentUri parentCid parts = (Inl err, created)"
  shows "\<exists>pre ev. deleted @ created = pre @ ev # cleanupCreated c (recordedIDs pre) \<and>
           createResult ev = Some (Inl err) \<and>
           (\<forall>e\<in>set pre. \<forall>err'. createResult e \<noteq> Some (Inl err')) \<and>
           (\<forall>e\<in>set (deleted @ created). \<not> isSavePostMapping e)"
proof -
  from createThread_failed[OF ct] obtain pre ev where
    created: "created = pre @ ev # cleanupCreated c (recordedIDs pre)" and
    ev: "createResult ev = Some (Inl err)" and
    pre: "\<forall>e\<in>set pre. \<exists>r. createResult e = Some (Inr r)"
    by blast
  from del have "recordedIDs deleted = []"
    by (intro recordedIDs_no_create) simp
  then have "deleted @ created = (deleted @ pre) @ ev # cleanupCreated c (recordedIDs (deleted @ pre))"
    by (simp add: created recordedIDs_append)
  moreover have "\<forall>e\<in>set (deleted @ pre). \<forall>err'. createResult e \<noteq> Some (Inl err')"
    using del pre by auto
  moreover have "\<forall>e\<in>set (deleted @ created). \<not> isSavePostMapping e"
    using del pre ev by (auto simp: created dest: cleanupCreated_events createResult_Some_not_save)
  ultimately show ?thesis using ev by blast
qed

lemma success_no_failure:
  assumes del: "\<forall>e\<in>set deleted. createResult e = None \<and> \<not> isSavePostMapping e"
    and ct: "createThread c parentUri parentCid parts = (Inr ids, created)"
    and saves: "\<forall>e\<in>set saves. createResult e = None"
  shows "\<forall>e\<in>set (deleted @ created @ saves). \<forall>err. createResult e \<noteq> Some (Inl err)"
  using del saves createThread_succeeded[OF ct] by auto

lemma Split_nonempty: "Split s sep \<noteq> []"
  by (induction s) (auto split: list.splits)

text \<open>
  C2, amended. In a run of \<^verbatim>\<open>ProcessPost\<close> (either revision) in which a creation request
  fails, the events are: the events before the failure, none of them a failed request;
  the failed request; and then nothing but deletion requests, exactly one for each
  earlier part of the call whose creation result was recorded (that is, split at \<^verbatim>\<open>|\<close>
  into exactly a URI and a CID), in the order of creation. Each of them asks
  \<^verbatim>\<open>DeletePost\<close> for the URI of its part, the text before the \<^verbatim>\<open>|\<close>, and is made whatever
  the outcome of the deletion requests before it. The call returns the error of the
  failed request, none of its events writes a PostMapping and the PostMapping table is
  as before.
\<close>

theorem creation_failure_rollback:
  assumes run: "ProcessPost b post d = Some (out, d', evs) \<or>
                ProcessPost_fp b post d = Some (out, d', evs)"
    and failed: "\<exists>e\<in>set evs. \<exists>err. createResult e = Some (Inl err)"
  shows "\<exists>pre ev err.
           evs = pre @ ev #
                 map (\<lambda>bskyID. DeletePostCall (Split bskyID CHR ''|'' ! 0)
                                  (DeletePost (bluesky b) (Split bskyID CHR ''|'' ! 0)))
                     (recordedIDs pre) \<and>
           createResult ev = Some (Inl err) \<and>
           (\<forall>e\<in>set pre. \<forall>err'. createResult e \<noteq> Some (Inl err')) \<and>
           out = Returned (Some err) \<and>
           (\<forall>e\<in>set evs. \<not> isSavePostMapping e) \<and>
           post_mappings d' = post_mappings d"
proof -
  have requests: "cleanupCreated (bluesky b) bskyIDs =
      map (\<lambda>bskyID. DeletePostCall (Split bskyID CHR ''|'' ! 0)
                       (DeletePost (bluesky b) (Split bskyID CHR ''|'' ! 0))) bskyIDs" for bskyIDs
  proof -
    have "(case Split bskyID CHR ''|'' of
             [] \<Rightarrow> []
           | p # x \<Rightarrow> [DeletePostCall p (DeletePost (bluesky b) p)])
        = [DeletePostCall (Split bskyID CHR ''|'' ! 0)
             (DeletePost (bluesky b) (Split bskyID CHR ''|'' ! 0))]" for bskyID
      using Split_nonempty[of bskyID "CHR ''|''"] by (cases "Split bskyID CHR ''|''") auto
    then show ?thesis
      by (induction bskyIDs) (simp_all add: cleanupCreated_def)
  qed
  from run show ?thesis
  proof
  assume "ProcessPost b post d = Some (out, d', evs)"
  then show ?thesis
  proof (cases rule: ProcessPost_run)
    case skipped
    with failed show ?thesis by simp
  next
    case (failed parentUri parentCid origPostID isEdit d1 parts err created)
    let ?deleted = "if isEdit then deletePrevious (bluesky b) d1 origPostID else []"
    have "\<forall>e\<in>set ?deleted. createResult e = None \<and> \<not> isSavePostMapping e"
      by (auto dest: deletePrevious_events)
    from failure_shape[OF this failed(6)] failed(7,8,9) CheckIfEdit_post_mappings[OF failed(4)]
    show ?thesis unfolding requests by blast
  next
    case (succeeded parentUri parentCid origPostID isEdit d1 parts bskyIDs created)
    let ?deleted = "if isEdit then deletePrevious (bluesky b) d1 origPostID else []"
    have "\<forall>e\<in>set ?deleted. createResult e = None \<and> \<not> isSavePostMapping e"
      by (auto dest: deletePrevious_events)
    from success_no_failure[OF this succeeded(6), of "SavePostMappingCall (ID post) bskyIDs #
        (if isEdit \<and> origPostID \<noteq> ID post then [SavePostMappingCall origPostID bskyIDs] else [])"]
      succeeded(9) \<open>\<exists>e\<in>set evs. \<exists>err. createResult e = Some (Inl err)\<close>
    show ?thesis by auto
  qed
next
  assume "ProcessPost_fp b post d = Some (out, d', evs)"
  then show ?thesis
  proof (cases rule: ProcessPost_fp_run)
    case skipped
    with failed show ?thesis by auto
  next
    case (failed parentUri parentCid parts deleted err created)
    from failure_shape[OF failed(1,2)] failed(3,4,5)
    show ?thesis unfolding requests by blast
  next
    case (succeeded parentUri parentCid parts deleted bskyIDs created)
    from success_no_failure[OF succeeded(1,2), of "[SavePostMappingCall (ID post) bskyIDs,
        SaveContentHashCall (ID post) (hashPostContent b (Content post))]"]
      succeeded(4) \<open>\<exists>e\<in>set evs. \<exists>err. createResult e = Some (Inl err)\<close>
    show ?thesis by auto
  qed
  qed
qed

lemma length_partSuffix: "length (partSuffix i n) = 4 + length (itoa i) + length (itoa n)"
  by (simp add: partSuffix_def)

lemma length_itoa_digit: "n < 10 \<Longrightarrow> length (itoa n) = 1"
  by (subst itoa.simps) simp

lemma hashPostContent_nonempty: "hashPostContent b content \<noteq> []"
  using length_hashPostContent[of b content] by auto

lemma createThread_two_parts:
  "createThread (firstThenFail uri) [] [] [p0, p1] =
     (Inl (Err ''boom''),
      CreatePostCall (truncatePart p0) (Inr (uri @ ''|c0'')) #
      (if length (Split (uri @ ''|c0'') CHR ''|'') \<noteq> 2
       then [CreateReplyCall (truncatePart p1) [] [] (Inl (Err ''boom''))]
       else [CreateReplyCall (truncatePart p1) (Split (uri @ ''|c0'') CHR ''|'' ! 1)
               (Split (uri @ ''|c0'') CHR ''|'' ! 0) (Inl (Err ''boom'')),
             DeletePostCall (hd (Split (uri @ ''|c0'') CHR ''|''))
               (DeletePost (firstThenFail uri) (hd (Split (uri @ ''|c0'') CHR ''|'')))]))"
  by (auto simp: createThread_def createPart_def CreatePost_def CreateReply_def firstThenFail_def
      refusingClient_def cleanupCreated_def split: list.splits)

lemma parts_301:
  "splitContent (replicate 301 (CHR ''a'')) =
     Some [replicate 294 (CHR ''a'') @ partSuffix 1 2, replicate 7 (CHR ''a'') @ partSuffix 2 2]"
  by (simp add: splitContent_letters_301 addIndicators_def numeral_2_eq_2)

lemma truncate_parts_301:
  "truncatePart (replicate 294 (CHR ''a'') @ partSuffix (Suc 0) 2) = replicate 294 (CHR ''a'') @ partSuffix (Suc 0) 2"
  "truncatePart (replicate 7 (CHR ''a'') @ partSuffix 2 2) = replicate 7 (CHR ''a'') @ partSuffix 2 2"
proof -
  have "length (replicate 294 (CHR ''a'') @ partSuffix (Suc 0) 2) = 300"
    by (simp add: length_partSuffix length_itoa_digit)
  then show "truncatePart (replicate 294 (CHR ''a'') @ partSuffix (Suc 0) 2)
      = replicate 294 (CHR ''a'') @ partSuffix (Suc 0) 2"
    unfolding truncatePart_def by simp
  have "length (replicate 7 (CHR ''a'') @ partSuffix 2 2) = 13"
    by (simp add: length_partSuffix length_itoa_digit)
  then show "truncatePart (replicate 7 (CHR ''a'') @ partSuffix 2 2)
      = replicate 7 (CHR ''a'') @ partSuffix 2 2"
    unfolding truncatePart_def by simp
qed

lemma ProcessPost_plain:
  assumes "splitContent text = Some parts"
  shows "ProcessPost (bridgeWith c) (plainPost postID text) emptyDatabase =
     (case createThread c [] [] parts of
        (Inl err, created) \<Rightarrow> Some (Returned (Some err), emptyDatabase, created)
      | (Inr bskyIDs, created) \<Rightarrow>
          Some (Returned None, SavePostMapping emptyDatabase postID bskyIDs,
                created @ [SavePostMappingCall postID bskyIDs]))"
  using assms
  by (simp add: ProcessPost_def bridgeWith_def plainPost_def ownParent_def CheckIfEdit_def
      emptyDatabase_def split: prod.splits sum.splits)

lemma ProcessPost_fp_plain:
  assumes "splitContent text = Some parts"
  shows "ProcessPost_fp (bridgeWith c) (plainPost postID text) emptyDatabase =
     (case createThread c [] [] parts of
        (Inl err, created) \<Rightarrow> Some (Returned (Some err), emptyDatabase, created)
      | (Inr bskyIDs, created) \<Rightarrow>
          Some (Returned None,
                SaveContentHash (SavePostMapping emptyDatabase postID bskyIDs) postID
                  (hashPostContent (bridgeWith c) text),
                created @ [SavePostMappingCall postID bskyIDs,
                           SaveContentHashCall postID (hashPostContent (bridgeWith c) text)]))"
proof -
  have "GetContentHash emptyDatabase postID = []"
    by (simp add: GetContentHash_def emptyDatabase_def)
  moreover have "resolveParent (bridgeWith c) emptyDatabase (plainPost postID text) = Some ([], [])"
    by (simp add: resolveParent_def plainPost_def)
  moreover have "\<not> Reblog (plainPost postID text)" "Visibility (plainPost postID text) = ''public''"
    "FilterHashtag (bridgeWith c) = []" "bluesky (bridgeWith c) = c"
    "ID (plainPost postID text) = postID" "Content (plainPost postID text) = text"
    by (simp_all add: plainPost_def bridgeWith_def)
  ultimately show ?thesis
    using assms hashPostContent_nonempty[of "bridgeWith c" "text"]
    by (auto simp: ProcessPost_fp_def split: prod.splits sum.splits)
qed

text \<open>
  C2, as stated, fails: a part that was created is not deleted when its result does not
  split into exactly two fields. Here the service creates part 1 with a URI that holds
  the separator and refuses part 2; both revisions return the error without any
  deletion request.
\<close>

theorem creation_failure_rollback_counterexample:
  "ProcessPost (bridgeWith (firstThenFail ''at://x|y'')) (plainPost ''1'' (replicate 301 (CHR ''a'')))
     emptyDatabase =
     Some (Returned (Some (Err ''boom'')), emptyDatabase,
           [CreatePostCall (replicate 294 (CHR ''a'') @ partSuffix 1 2) (Inr ''at://x|y|c0''),
            CreateReplyCall (replicate 7 (CHR ''a'') @ partSuffix 2 2) [] [] (Inl (Err ''boom''))]) \<and>
   ProcessPost_fp (bridgeWith (firstThenFail ''at://x|y'')) (plainPost ''1'' (replicate 301 (CHR ''a'')))
     emptyDatabase =
     Some (Returned (Some (Err ''boom'')), emptyDatabase,
           [CreatePostCall (replicate 294 (CHR ''a'') @ partSuffix 1 2) (Inr ''at://x|y|c0''),
            CreateReplyCall (replicate 7 (CHR ''a'') @ partSuffix 2 2) [] [] (Inl (Err ''boom''))])"
  by (simp add: ProcessPost_plain[OF parts_301] ProcessPost_fp_plain[OF parts_301]
      createThread_two_parts truncate_parts_301)

lemma effectiveMaxLength_601: "effectiveMaxLength (replicate 601 (CHR ''a'')) = 294"
  by (simp add: effectiveMaxLength_def suffixSize_eq estimatedTotal_def maxLength_def itoa.simps)

lemma chunks_letters_601:
  "chunks 601 294 (replicate 601 (CHR ''a''))
     = [replicate 294 (CHR ''a''), replicate 294 (CHR ''a''), replicate 13 (CHR ''a'')]"
proof -
  have "chunks 601 294 (replicate 601 (CHR ''a''))
      = replicate 294 (CHR ''a'') # chunks 600 294 (replicate 307 (CHR ''a''))"
    by (subst chunks_hard_step) simp_all
  also have "chunks 600 294 (replicate 307 (CHR ''a''))
      = replicate 294 (CHR ''a'') # chunks 599 294 (replicate 13 (CHR ''a''))"
    by (subst chunks_hard_step) simp_all
  also have "chunks 599 294 (replicate 13 (CHR ''a'')) = [replicate 13 (CHR ''a'')]"
    by (rule chunks_last) simp_all
  finally show ?thesis .
qed

lemma parts_601:
  "splitContent (replicate 601 (CHR ''a'')) =
     Some [replicate 294 (CHR ''a'') @ partSuffix 1 3, replicate 294 (CHR ''a'') @ partSuffix 2 3,
           replicate 13 (CHR ''a'') @ partSuffix 3 3]"
  using splitContent_long[of "replicate 601 (CHR ''a'')"]
  by (simp add: effectiveMaxLength_601 chunks_letters_601 addIndicators_def numeral_2_eq_2 numeral_3_eq_3)

lemma truncatePart_short: "length part \<le> 300 \<Longrightarrow> truncatePart part = part"
  by (simp add: truncatePart_def)

lemma truncate_parts_601:
  "truncatePart (replicate 294 (CHR ''a'') @ partSuffix 1 3) = replicate 294 (CHR ''a'') @ partSuffix 1 3"
  "truncatePart (replicate 294 (CHR ''a'') @ partSuffix 2 3) = replicate 294 (CHR ''a'') @ partSuffix 2 3"
  "truncatePart (replicate 13 (CHR ''a'') @ partSuffix 3 3) = replicate 13 (CHR ''a'') @ partSuffix 3 3"
  by (rule truncatePart_short, simp add: length_partSuffix length_itoa_digit)+

theorem creation_failure_rollback_witness:
  "(ProcessPost (bridgeWith secondThenFail) (plainPost ''1'' (replicate 601 (CHR ''a''))) emptyDatabase =
      Some (Returned (Some (Err ''boom'')), emptyDatabase,
           [CreatePostCall (replicate 294 (CHR ''a'') @ partSuffix 1 3)
              (Inr ''at://did/app.bsky.feed.post/p0|c0''),
            CreateReplyCall (replicate 294 (CHR ''a'') @ partSuffix 2 3) ''c0''
              ''at://did/app.bsky.feed.post/p0'' (Inr ''at://did/app.bsky.feed.post/p1|c1''),
            CreateReplyCall (replicate 13 (CHR ''a'') @ partSuffix 3 3) ''c1''
              ''at://did/app.bsky.feed.post/p1'' (Inl (Err ''boom'')),
            DeletePostCall ''at://did/app.bsky.feed.post/p0''
              (Some (Err ''post deletion failed with status 500: '')),
            DeletePostCall ''at://did/app.bsky.feed.post/p1'' None])) \<and>
   (\<exists>pre ev err.
      [CreatePostCall (replicate 294 (CHR ''a'') @ partSuffix 1 3)
         (Inr ''at://did/app.bsky.feed.post/p0|c0''),
       CreateReplyCall (replicate 294 (CHR ''a'') @ partSuffix 2 3) ''c0''
         ''at://did/app.bsky.feed.post/p0'' (Inr ''at://did/app.bsky.feed.post/p1|c1''),
       CreateReplyCall (replicate 13 (CHR ''a'') @ partSuffix 3 3) ''c1''
         ''at://did/app.bsky.feed.post/p1'' (Inl (Err ''boom'')),
       DeletePostCall ''at://did/app.bsky.feed.post/p0''
         (Some (Err ''post deletion failed with status 500: '')),
       DeletePostCall ''at://did/app.bsky.feed.post/p1'' None]
        = pre @ ev #
          map (\<lambda>bskyID. DeletePostCall (Split bskyID CHR ''|'' ! 0)
                           (DeletePost (bluesky (bridgeWith secondThenFail)) (Split bskyID CHR ''|'' ! 0)))
              (recordedIDs pre) \<and>
      createResult ev = Some (Inl err) \<and>
      (\<forall>e\<in>set pre. \<forall>err'. createResult e \<noteq> Some (Inl err')) \<and>
      Returned (Some (Err ''boom'')) = Returned (Some err) \<and>
      (\<forall>e\<in>set [CreatePostCall (replicate 294 (CHR ''a'') @ partSuffix 1 3)
                   (Inr ''at://did/app.bsky.feed.post/p0|c0''),
                 CreateReplyCall (replicate 294 (CHR ''a'') @ partSuffix 2 3) ''c0''
                   ''at://did/app.bsky.feed.post/p0'' (Inr ''at://did/app.bsky.feed.post/p1|c1''),
                 CreateReplyCall (replicate 13 (CHR ''a'') @ partSuffix 3 3) ''c1''
                   ''at://did/app.bsky.feed.post/p1'' (Inl (Err ''boom'')),
                 DeletePostCall ''at://did/app.bsky.feed.post/p0''
                   (Some (Err ''post deletion failed with status 500: '')),
                 DeletePostCall ''at://did/app.bsky.feed.post/p1'' None]. \<not> isSavePostMapping e) \<and>
      post_mappings emptyDatabase = post_mappings emptyDatabase)"
proof -
  let ?evs = "[CreatePostCall (replicate 294 (CHR ''a'') @ partSuffix 1 3)
              (Inr ''at://did/app.bsky.feed.post/p0|c0''),
            CreateReplyCall (replicate 294 (CHR ''a'') @ partSuffix 2 3) ''c0''
              ''at://did/app.bsky.feed.post/p0'' (Inr ''at://did/app.bsky.feed.post/p1|c1''),
            CreateReplyCall (replicate 13 (CHR ''a'') @ partSuffix 3 3) ''c1''
              ''at://did/app.bsky.feed.post/p1'' (Inl (Err ''boom'')),
            DeletePostCall ''at://did/app.bsky.feed.post/p0''
              (Some (Err ''post deletion failed with status 500: '')),
            DeletePostCall ''at://did/app.bsky.feed.post/p1'' None]"
  have loop: "createThread secondThenFail [] [] [p0, p1, p2] =
     (Inl (Err ''boom''),
      [CreatePostCall (truncatePart p0) (Inr ''at://did/app.bsky.feed.post/p0|c0''),
       CreateReplyCall (truncatePart p1) ''c0'' ''at://did/app.bsky.feed.post/p0''
         (Inr ''at://did/app.bsky.feed.post/p1|c1''),
       CreateReplyCall (truncatePart p2) ''c1'' ''at://did/app.bsky.feed.post/p1'' (Inl (Err ''boom'')),
       DeletePostCall ''at://did/app.bsky.feed.post/p0''
         (Some (Err ''post deletion failed with status 500: '')),
       DeletePostCall ''at://did/app.bsky.feed.post/p1'' None])" for p0 p1 p2
    by (simp add: createThread_def createPart_def CreatePost_def CreateReply_def secondThenFail_def
        refusingClient_def cleanupCreated_def DeletePost_def recordKey_def)
  have run: "ProcessPost (bridgeWith secondThenFail) (plainPost ''1'' (replicate 601 (CHR ''a'')))
      emptyDatabase = Some (Returned (Some (Err ''boom'')), emptyDatabase, ?evs)"
    unfolding ProcessPost_plain[OF parts_601] loop truncate_parts_601 by simp
  have failed: "\<exists>e\<in>set ?evs. \<exists>err. createResult e = Some (Inl err)"
    by simp
  from creation_failure_rollback[OF disjI1[OF run] failed] run show ?thesis
    by blast
qed

subsection \<open>Edits\<close>

lemma deletePrevious_eq:
  assumes "CheckIfEdit d mastodonID originalID = (r, d1)"
  shows "deletePrevious c d1 origPostID =
       (case post_mappings d origPostID of
          None \<Rightarrow> []
        | Some idsStr \<Rightarrow>
            map (\<lambda>bskyID. DeletePostCall (parsedID bskyID) (DeletePost c (parsedID bskyID)))
              (Split idsStr CHR '',''))"
  using CheckIfEdit_post_mappings[OF assms]
  by (simp add: deletePrevious_def GetBlueskyIDsForMastodonPost_def split: option.splits)

text \<open>
  C5, amended. A post that passes the filters and that \<^verbatim>\<open>CheckIfEdit\<close> classifies as an
  edit of \<open>origPostID\<close> (revision of src/main.go) has as its first events exactly one
  deletion request for each identifier that the PostMapping of \<open>origPostID\<close> holds (none
  when there is no PostMapping). If every part is then created, the remaining events
  are the creation requests followed by exactly one PostMapping write under the id of
  the post and, when \<open>origPostID\<close> differs from it, one under \<open>origPostID\<close>, both with the
  identifiers recorded for the new parts. If a creation fails, the call returns its
  error and no PostMapping is written.
\<close>

theorem edit_writes_and_deletes:
  assumes run: "ProcessPost b post d = Some (out, d', evs)"
    and pass: "\<not> Reblog post" "Visibility post = ''public''" "FilterHashtag b = [] \<or> hasFilterTag b post"
    and edit: "CheckIfEdit d (ID post) (OriginalID post) = ((origPostID, True), d1)"
  shows "\<exists>created.
     evs = deletePrevious (bluesky b) d1 origPostID @ created @
            (if out = Returned None
             then SavePostMappingCall (ID post) (recordedIDs created) #
                  (if origPostID \<noteq> ID post
                   then [SavePostMappingCall origPostID (recordedIDs created)] else [])
             else []) \<and>
     (\<forall>e\<in>set created. \<not> isSavePostMapping e) \<and>
     (out = Returned None \<longrightarrow>
        (\<forall>e\<in>set created. \<exists>r. createResult e = Some (Inr r)) \<and>
        post_mappings d' = (post_mappings d)(ID post \<mapsto> Join (recordedIDs created) '','',
                                             origPostID \<mapsto> Join (recordedIDs created) '','')) \<and>
     (out \<noteq> Returned None \<longrightarrow>
        (\<exists>err. out = Returned (Some err) \<and> (\<exists>e\<in>set created. createResult e = Some (Inl err))) \<and>
        post_mappings d' = post_mappings d) \<and>
     deletePrevious (bluesky b) d1 origPostID =
       (case post_mappings d origPostID of
          None \<Rightarrow> []
        | Some idsStr \<Rightarrow>
            map (\<lambda>bskyID. DeletePostCall (parsedID bskyID) (DeletePost (bluesky b) (parsedID bskyID)))
              (Split idsStr CHR '',''))"
  using run
proof (cases rule: ProcessPost_run)
  case skipped
  with pass show ?thesis by simp
next
  case (failed parentUri parentCid origPostID' isEdit d1' parts err created)
  with edit have same: "origPostID' = origPostID" "isEdit" "d1' = d1" by simp_all
  from createThread_failed[OF failed(6)] obtain pre ev where
    created: "created = pre @ ev # cleanupCreated (bluesky b) (recordedIDs pre)" and
    ev: "createResult ev = Some (Inl err)" and
    pre: "\<forall>e\<in>set pre. \<exists>r. createResult e = Some (Inr r)"
    by blast
  have nosave: "\<forall>e\<in>set created. \<not> isSavePostMapping e"
    using pre ev by (auto simp: created dest: cleanupCreated_events createResult_Some_not_save)
  have "\<exists>e\<in>set created. createResult e = Some (Inl err)"
    using ev by (auto simp: created)
  with failed(7,8,9) same nosave deletePrevious_eq[OF edit] CheckIfEdit_post_mappings[OF edit]
  show ?thesis by auto
next
  case (succeeded parentUri parentCid origPostID' isEdit d1' parts bskyIDs created)
  with edit have same: "origPostID' = origPostID" "isEdit" "d1' = d1" by simp_all
  from createThread_succeeded[OF succeeded(6)] have
    ids: "bskyIDs = recordedIDs created" and
    ok: "\<forall>e\<in>set created. \<exists>r. createResult e = Some (Inr r)"
    by simp_all
  have nosave: "\<forall>e\<in>set created. \<not> isSavePostMapping e"
    using ok by (auto dest: createResult_Some_not_save)
  have "post_mappings d' = (post_mappings d)(ID post \<mapsto> Join (recordedIDs created) '','',
                                             origPostID \<mapsto> Join (recordedIDs created) '','')"
    using succeeded(8) same ids CheckIfEdit_post_mappings[OF edit]
    by (auto simp: SavePostMapping_def)
  with succeeded(7,9) same ids ok nosave deletePrevious_eq[OF edit]
  show ?thesis by auto
qed

lemma parsedID_abc: "parsedID ''at://did/app.bsky.feed.post/abc|cid'' = ''abc''"
  by (simp add: parsedID_def)

lemma edit_classified:
  "CheckIfEdit mirroredDatabase (ID editedPost) (OriginalID editedPost)
     = ((''1'', True), MarkAsEdit mirroredDatabase ''2'' ''1'')"
  by (simp add: CheckIfEdit_def editedPost_def plainPost_def)

lemma deletePrevious_mirrored:
  "deletePrevious refusingClient (MarkAsEdit mirroredDatabase ''2'' ''1'') ''1''
     = [DeletePostCall ''abc'' None]"
  "deletePrevious acceptingClient (MarkAsEdit mirroredDatabase ''2'' ''1'') ''1''
     = [DeletePostCall ''abc'' None]"
  by (simp_all add: deletePrevious_def GetBlueskyIDsForMastodonPost_def MarkAsEdit_def
      mirroredDatabase_def SavePostMapping_def emptyDatabase_def parsedID_abc DeletePost_def
      refusingClient_def acceptingClient_def)

lemma ProcessPost_edited:
  "ProcessPost (bridgeWith c) editedPost mirroredDatabase =
     (case createThread c [] [] [''hi''] of
        (Inl err, created) \<Rightarrow>
          Some (Returned (Some err), MarkAsEdit mirroredDatabase ''2'' ''1'',
                deletePrevious c (MarkAsEdit mirroredDatabase ''2'' ''1'') ''1'' @ created)
      | (Inr bskyIDs, created) \<Rightarrow>
          Some (Returned None,
                SavePostMapping (SavePostMapping (MarkAsEdit mirroredDatabase ''2'' ''1'') ''2'' bskyIDs)
                  ''1'' bskyIDs,
                deletePrevious c (MarkAsEdit mirroredDatabase ''2'' ''1'') ''1'' @ created @
                  [SavePostMappingCall ''2'' bskyIDs, SavePostMappingCall ''1'' bskyIDs]))"
proof -
  have "ownParent mirroredDatabase editedPost = ([], [])"
    by (simp add: ownParent_def editedPost_def plainPost_def)
  moreover have "splitContent (Content editedPost) = Some [''hi'']"
    by (simp add: splitContent_short editedPost_def plainPost_def)
  moreover have "\<not> Reblog editedPost" "Visibility editedPost = ''public''"
    "FilterHashtag (bridgeWith c) = []" "bluesky (bridgeWith c) = c" "ID editedPost = ''2''"
    by (simp_all add: editedPost_def plainPost_def bridgeWith_def)
  ultimately show ?thesis
    using edit_classified
    by (simp add: ProcessPost_def split: prod.splits sum.splits)
qed

lemma createThread_refused:
  "createThread refusingClient [] [] [''hi''] = (Inl (Err ''boom''), [CreatePostCall ''hi'' (Inl (Err ''boom''))])"
  by (simp add: createThread_def createPart_def CreatePost_def refusingClient_def truncatePart_def
      cleanupCreated_def)

lemma createThread_accepted:
  "createThread acceptingClient [] [] [''hi''] =
     (Inr [''at://did/app.bsky.feed.post/new|cid''],
      [CreatePostCall ''hi'' (Inr ''at://did/app.bsky.feed.post/new|cid'')])"
  by (simp add: createThread_def createPart_def CreatePost_def refusingClient_def acceptingClient_def
      truncatePart_def)

text \<open>
  C5, as stated, fails: when the creation of a part fails, a post classified as an edit
  gets no PostMapping write at all.
\<close>

theorem edit_writes_counterexample:
  "fst (CheckIfEdit mirroredDatabase (ID editedPost) (OriginalID editedPost)) = (''1'', True) \<and>
   ProcessPost (bridgeWith refusingClient) editedPost mirroredDatabase =
     Some (Returned (Some (Err ''boom'')), MarkAsEdit mirroredDatabase ''2'' ''1'',
           [DeletePostCall ''abc'' None, CreatePostCall ''hi'' (Inl (Err ''boom''))])"
  by (simp add: edit_classified ProcessPost_edited createThread_refused deletePrevious_mirrored)

theorem edit_writes_and_deletes_witness:
  "ProcessPost (bridgeWith acceptingClient) editedPost mirroredDatabase =
     Some (Returned None,
           SavePostMapping (SavePostMapping (MarkAsEdit mirroredDatabase ''2'' ''1'') ''2''
              [''at://did/app.bsky.feed.post/new|cid'']) ''1'' [''at://did/app.bsky.feed.post/new|cid''],
           [DeletePostCall ''abc'' None,
            CreatePostCall ''hi'' (Inr ''at://did/app.bsky.feed.post/new|cid''),
            SavePostMappingCall ''2'' [''at://did/app.bsky.feed.post/new|cid''],
            SavePostMappingCall ''1'' [''at://did/app.bsky.feed.post/new|cid'']]) \<and>
   \<not> Reblog editedPost \<and> Visibility editedPost = ''public'' \<and>
   (FilterHashtag (bridgeWith acceptingClient) = [] \<or> hasFilterTag (bridgeWith acceptingClient) editedPost) \<and>
   CheckIfEdit mirroredDatabase (ID editedPost) (OriginalID editedPost)
     = ((''1'', True), MarkAsEdit mirroredDatabase ''2'' ''1'') \<and>
   (\<exists>created.
      [DeletePostCall ''abc'' None,
       CreatePostCall ''hi'' (Inr ''at://did/app.bsky.feed.post/new|cid''),
       SavePostMappingCall ''2'' [''at://did/app.bsky.feed.post/new|cid''],
       SavePostMappingCall ''1'' [''at://did/app.bsky.feed.post/new|cid'']]
        = deletePrevious (bluesky (bridgeWith acceptingClient)) (MarkAsEdit mirroredDatabase ''2'' ''1'') ''1''
          @ created @
          [SavePostMappingCall (ID editedPost) (recordedIDs created),
           SavePostMappingCall ''1'' (recordedIDs created)] \<and>
      (\<forall>e\<in>set created. \<not> isSavePostMapping e))"
proof -
  have run: "ProcessPost (bridgeWith acceptingClient) editedPost mirroredDatabase =
     Some (Returned None,
           SavePostMapping (SavePostMapping (MarkAsEdit mirroredDatabase ''2'' ''1'') ''2''
              [''at://did/app.bsky.feed.post/new|cid'']) ''1'' [''at://did/app.bsky.feed.post/new|cid''],
           [DeletePostCall ''abc'' None,
            CreatePostCall ''hi'' (Inr ''at://did/app.bsky.feed.post/new|cid''),
            SavePostMappingCall ''2'' [''at://did/app.bsky.feed.post/new|cid''],
            SavePostMappingCall ''1'' [''at://did/app.bsky.feed.post/new|cid'']])"
    by (simp add: ProcessPost_edited createThread_accepted deletePrevious_mirrored)
  have pass: "\<not> Reblog editedPost" "Visibility editedPost = ''public''"
    "FilterHashtag (bridgeWith acceptingClient) = [] \<or> hasFilterTag (bridgeWith acceptingClient) editedPost"
    by (simp_all add: editedPost_def plainPost_def bridgeWith_def)
  have differs: "''1'' \<noteq> ID editedPost"
    by (simp add: editedPost_def plainPost_def)
  from edit_writes_and_deletes[OF run pass edit_classified] differs
  have "\<exists>created.
      [DeletePostCall ''abc'' None,
       CreatePostCall ''hi'' (Inr ''at://did/app.bsky.feed.post/new|cid''),
       SavePostMappingCall ''2'' [''at://did/app.bsky.feed.post/new|cid''],
       SavePostMappingCall ''1'' [''at://did/app.bsky.feed.post/new|cid'']]
        = deletePrevious (bluesky (bridgeWith acceptingClient)) (MarkAsEdit mirroredDatabase ''2'' ''1'') ''1''
          @ created @
          [SavePostMappingCall (ID editedPost) (recordedIDs created),
           SavePostMappingCall ''1'' (recordedIDs created)] \<and>
      (\<forall>e\<in>set created. \<not> isSavePostMapping e)"
    by auto
  with run pass edit_classified show ?thesis by blast
qed

section \<open>Properties of the parent lookup\<close>

lemma Contains_sublist: "Contains s substr \<longleftrightarrow> sublist substr s"
  by (induction s) (auto simp: sublist_Cons_right)

lemma Join_snoc: "ws \<noteq> [] \<Longrightarrow> Join (ws @ [w]) sep = Join ws sep @ sep @ w"
  by (induction ws sep rule: Join.induct) auto

lemma Join_nonempty: "ws \<noteq> [] \<Longrightarrow> [] \<notin> set ws \<Longrightarrow> Join ws sep \<noteq> []"
  by (induction ws sep rule: Join.induct) auto

lemma fieldsFrom_nonempty: "[] \<notin> set (fieldsFrom word s)"
  by (induction word s rule: fieldsFrom.induct) auto

lemma Fields_nonempty: "[] \<notin> set (Fields s)"
  by (simp add: Fields_def fieldsFrom_nonempty)

lemma addWords_length: "length acc \<le> 30 \<Longrightarrow> length (addWords acc ws) \<le> 30"
  by (induction ws arbitrary: acc) auto

lemma spaceWidth_le: "spaceWidth s \<le> length s"
proof (cases s)
  case Nil
  then show ?thesis by (simp add: spaceWidth_def)
next
  case (Cons a s1)
  show ?thesis
  proof (cases s1)
    case Nil
    with Cons show ?thesis by (simp add: spaceWidth_def)
  next
    case (Cons b s2)
    show ?thesis
    proof (cases s2)
      case Nil
      with \<open>s = a # s1\<close> \<open>s1 = b # s2\<close> show ?thesis by (simp add: spaceWidth_def)
    next
      case (Cons c s3)
      with \<open>s = a # s1\<close> \<open>s1 = b # s2\<close> show ?thesis by (simp add: spaceWidth_def)
    qed
  qed
qed

lemma spaceWidth_append: "0 < spaceWidth xs \<Longrightarrow> spaceWidth (xs @ ys) = spaceWidth xs"
proof (cases xs)
  case Nil
  assume "0 < spaceWidth xs"
  with Nil show ?thesis by (simp add: spaceWidth_def)
next
  case (Cons a s1)
  assume pos: "0 < spaceWidth xs"
  show ?thesis
  proof (cases s1)
    case Nil
    with Cons pos show ?thesis
      by (cases ys; cases "tl ys") (auto simp: spaceWidth_def split: if_splits)
  next
    case (Cons b s2)
    show ?thesis
    proof (cases s2)
      case Nil
      with \<open>xs = a # s1\<close> \<open>s1 = b # s2\<close> pos show ?thesis
        by (cases ys) (auto simp: spaceWidth_def split: if_splits)
    next
      case (Cons c s3)
      with \<open>xs = a # s1\<close> \<open>s1 = b # s2\<close> show ?thesis by (simp add: spaceWidth_def)
    qed
  qed
qed

lemma spaceWidth_take: "0 < spaceWidth s \<Longrightarrow> spaceWidth (take (spaceWidth s) s) = spaceWidth s"
proof (cases s)
  case Nil
  assume "0 < spaceWidth s"
  with Nil show ?thesis by (simp add: spaceWidth_def)
next
  case (Cons a s1)
  assume pos: "0 < spaceWidth s"
  show ?thesis
  proof (cases s1)
    case Nil
    with Cons pos show ?thesis
      by (auto simp: spaceWidth_def split: if_splits)
  next
    case (Cons b s2)
    show ?thesis
    proof (cases s2)
      case Nil
      with \<open>s = a # s1\<close> \<open>s1 = b # s2\<close> pos show ?thesis
        by (auto simp: spaceWidth_def split: if_splits)
    next
      case (Cons c s3)
      with \<open>s = a # s1\<close> \<open>s1 = b # s2\<close> pos show ?thesis
        by (auto simp: spaceWidth_def split: if_splits)
    qed
  qed
qed

lemma whiteSpace_char_append:
  assumes pos: "0 < spaceWidth s" and g: "whiteSpace g"
  shows "whiteSpace (take (spaceWidth s) s @ g)"
proof -
  let ?n = "spaceWidth s"
  have len: "length (take ?n s) = ?n" using spaceWidth_le[of s] by simp
  with pos obtain c cs where t: "take ?n s = c # cs" by (cases "take ?n s") auto
  have sw: "spaceWidth (take ?n s @ g) = ?n"
    using spaceWidth_append[of "take ?n s" g] spaceWidth_take[OF pos] pos by simp
  have "drop ?n (take ?n s @ g) = g" using len by simp
  with sw pos g have "whiteSpace (c # cs @ g)"
    using t by (metis append_Cons whiteSpace.simps(2))
  with t show ?thesis by simp
qed

lemma fieldsFrom_gaps:
  assumes "\<forall>i<length word. spaceWidth (drop i word @ s) = 0"
  shows "\<exists>gaps. length gaps = length (fieldsFrom word s) + 1 \<and>
           concat (map2 (@) gaps (fieldsFrom word s @ [[]])) = word @ s \<and>
           (word \<noteq> [] \<longrightarrow> gaps ! 0 = []) \<and>
           (\<forall>g\<in>set gaps. whiteSpace g) \<and>
           (\<forall>i. 0 < i \<and> i < length (fieldsFrom word s) \<longrightarrow> gaps ! i \<noteq> []) \<and>
           (\<forall>w\<in>set (fieldsFrom word s). w \<noteq> [] \<and> (\<forall>i<length w. spaceWidth (drop i w) = 0))"
  using assms
proof (induction word s rule: fieldsFrom.induct)
  case (1 word)
  have free: "\<forall>i<length word. spaceWidth (drop i word) = 0" using 1 by simp
  show ?case
  proof (cases "word = []")
    case True
    then show ?thesis by (intro exI[of _ "[[]]"]) simp
  next
    case False
    with free show ?thesis by (intro exI[of _ "[[], []]"]) auto
  qed
next
  case (2 word c cs)
  let ?n = "spaceWidth (c # cs)"
  show ?case
  proof (cases "0 < ?n")
    case True
    let ?r = "fieldsFrom [] (drop ?n (c # cs))"
    from "2.IH"(1)[OF True] obtain gaps where
      len: "length gaps = length ?r + 1" and
      cat: "concat (map2 (@) gaps (?r @ [[]])) = drop ?n (c # cs)" and
      ws: "\<forall>g\<in>set gaps. whiteSpace g" and
      inner: "\<forall>i. 0 < i \<and> i < length ?r \<longrightarrow> gaps ! i \<noteq> []" and
      words: "\<forall>w\<in>set ?r. w \<noteq> [] \<and> (\<forall>i<length w. spaceWidth (drop i w) = 0)"
      by auto
    from len obtain g0 gs where gaps: "gaps = g0 # gs" by (cases gaps) auto
    let ?G = "take ?n (c # cs) @ g0"
    obtain x xs where rx: "?r @ [[]] = x # xs" by (cases "?r @ [[]]") auto
    have G: "whiteSpace ?G" using whiteSpace_char_append[OF True] ws gaps by simp
    have Gne: "?G \<noteq> []" using True by simp
    have cat': "concat (map2 (@) (?G # gs) (?r @ [[]])) = c # cs"
    proof -
      have "concat (map2 (@) (?G # gs) (?r @ [[]])) = take ?n (c # cs) @ concat (map2 (@) gaps (?r @ [[]]))"
        unfolding rx gaps by simp
      also have "\<dots> = c # cs" unfolding cat by (rule append_take_drop_id)
      finally show ?thesis .
    qed
    show ?thesis
    proof (cases "word = []")
      case wnil: True
      have res: "fieldsFrom word (c # cs) = ?r" using True wnil by simp
      have "length (?G # gs) = length ?r + 1" using len gaps by simp
      moreover have "\<forall>g\<in>set (?G # gs). whiteSpace g" using G ws gaps by simp
      moreover have "\<forall>i. 0 < i \<and> i < length ?r \<longrightarrow> (?G # gs) ! i \<noteq> []"
      proof (intro allI impI)
        fix i assume i: "0 < i \<and> i < length ?r"
        then obtain j where "i = Suc j" by (cases i) auto
        with i inner gaps show "(?G # gs) ! i \<noteq> []" by auto
      qed
      ultimately show ?thesis
        unfolding res using cat' words wnil by (intro exI[of _ "?G # gs"]) simp
    next
      case wne: False
      have res: "fieldsFrom word (c # cs) = word # ?r" using True wne by simp
      have free: "\<forall>i<length word. spaceWidth (drop i word) = 0"
      proof (intro allI impI)
        fix i assume "i < length word"
        with "2.prems" have z: "spaceWidth (drop i word @ c # cs) = 0" by simp
        show "spaceWidth (drop i word) = 0"
        proof (rule ccontr)
          assume "spaceWidth (drop i word) \<noteq> 0"
          then have "0 < spaceWidth (drop i word)" by simp
          from spaceWidth_append[OF this, of "c # cs"] this z show False by simp
        qed
      qed
      have "length ([] # ?G # gs) = length (word # ?r) + 1" using len gaps by simp
      moreover have "concat (map2 (@) ([] # ?G # gs) ((word # ?r) @ [[]])) = word @ c # cs"
        using cat' by simp
      moreover have "\<forall>g\<in>set ([] # ?G # gs). whiteSpace g" using G ws gaps by simp
      moreover have "\<forall>i. 0 < i \<and> i < length (word # ?r) \<longrightarrow> ([] # ?G # gs) ! i \<noteq> []"
      proof (intro allI impI)
        fix i assume i: "0 < i \<and> i < length (word # ?r)"
        then obtain j where j: "i = Suc j" by (cases i) auto
        show "([] # ?G # gs) ! i \<noteq> []"
        proof (cases j)
          case 0
          with j Gne show ?thesis by simp
        next
          case (Suc m)
          with i j inner gaps show ?thesis by auto
        qed
      qed
      moreover have "\<forall>w\<in>set (word # ?r). w \<noteq> [] \<and> (\<forall>i<length w. spaceWidth (drop i w) = 0)"
        using wne free words by simp
      ultimately show ?thesis
        unfolding res by (intro exI[of _ "[] # ?G # gs"]) simp
    qed
  next
    case False
    then have res: "fieldsFrom word (c # cs) = fieldsFrom (word @ [c]) cs" by simp
    have pre: "\<forall>i<length (word @ [c]). spaceWidth (drop i (word @ [c]) @ cs) = 0"
    proof (intro allI impI)
      fix i assume i: "i < length (word @ [c])"
      show "spaceWidth (drop i (word @ [c]) @ cs) = 0"
      proof (cases "i < length word")
        case True
        with "2.prems" show ?thesis by simp
      next
        case ge: False
        with i have "i = length word" by simp
        with False show ?thesis by simp
      qed
    qed
    from "2.IH"(2)[OF False pre] show ?thesis unfolding res by auto
  qed
qed

lemma Join_take_prefix: "prefix (Join (take k ws) sep) (Join ws sep)"
proof (induction ws sep arbitrary: k rule: Join.induct)
  case (1 sep)
  then show ?case by simp
next
  case (2 x sep)
  then show ?case by (cases k) simp_all
next
  case (3 x y ys sep)
  show ?case
  proof (cases k)
    case 0
    then show ?thesis by simp
  next
    case (Suc m)
    show ?thesis
    proof (cases m)
      case 0
      with Suc show ?thesis by simp
    next
      case (Suc l)
      with "3.IH"[of m] \<open>k = Suc m\<close> show ?thesis by simp
    qed
  qed
qed

lemma Sub_within: "Sub t u < 24 * Hour \<and> Sub t u > - 24 * Hour \<longleftrightarrow> \<bar>t - u\<bar> < 24 * Hour"
  by (auto simp: Sub_def Hour_def)

lemma matchByContentAndName_Some:
  "matchByContentAndName content displayName postDate posts = Some (uri, cid) \<Longrightarrow>
   \<exists>post\<in>set posts. uri = Uri post \<and> cid = Cid post \<and>
      (AuthorDisplayName post = displayName \<or> Contains (AuthorDisplayName post) displayName \<or>
       Contains displayName (AuthorDisplayName post)) \<and>
      (Contains (RecordText post) content \<or> Contains content (RecordText post)) \<and>
      (\<exists>t. RecordCreatedAt post = Inr t \<and> Sub t postDate < 24 * Hour \<and> Sub t postDate > - 24 * Hour)"
proof (induction posts)
  case Nil
  then show ?case by simp
next
  case (Cons post posts)
  show ?case
  proof (cases "matchByContentAndName content displayName postDate posts = Some (uri, cid)")
    case True
    from Cons.IH[OF this] show ?thesis by auto
  next
    case False
    with Cons.prems show ?thesis
      by (auto split: if_splits sum.splits)
  qed
qed

text \<open>
  C7, amended. The content match of \<^verbatim>\<open>LookupBridgedMastodonPost\<close> searches with a term of at
  most 30 bytes. It is the content itself when that has at most 30 bytes. Otherwise it
  is made of the leading words of the content, joined by single spaces: word after word
  is added as long as the length of the term so far, plus the length of the word, plus
  one, is at most 30, and the first word that fails this test ends the term (so the term
  is empty when the first word has 30 bytes or more). The term is then a prefix of the
  words of the content joined by single spaces. The words are those of
  \<^verbatim>\<open>strings.Fields\<close>: the content is a gap, a word, a gap, ..., a word, a gap, where the
  gaps are white space, those between two words are not empty, and the words are not
  empty and hold no white-space character.

  A post that the lookup returns comes from a handle, from the search for the post id,
  or from \<^verbatim>\<open>findPostByContentAndName\<close> called with that term; and
  \<^verbatim>\<open>findPostByContentAndName\<close> returns a post of the search results only if the display
  name of its author equals the given one or one contains the other, its text contains
  the searched content or is contained in it, and its creation time parses and lies
  less than 24 hours from the given date.
\<close>

theorem fuzzy_resolver_conditions:
  "length (searchContentOf postContent) \<le> 30 \<and>
   (length postContent \<le> 30 \<longrightarrow> searchContentOf postContent = postContent) \<and>
   (30 < length postContent \<longrightarrow>
      prefix (searchContentOf postContent) (Join (Fields postContent) '' '') \<and>
      (\<exists>k\<le>length (Fields postContent).
         searchContentOf postContent = Join (take k (Fields postContent)) '' '' \<and>
         (\<forall>j<k. length (Join (take j (Fields postContent)) '' '') + length (Fields postContent ! j) + 1
                  \<le> 30) \<and>
         (k < length (Fields postContent) \<longrightarrow>
            30 < length (Join (take k (Fields postContent)) '' '') + length (Fields postContent ! k) + 1))) \<and>
   (\<exists>gaps. length gaps = length (Fields postContent) + 1 \<and>
      concat (map2 (@) gaps (Fields postContent @ [[]])) = postContent \<and>
      (\<forall>g\<in>set gaps. whiteSpace g) \<and>
      (\<forall>i. 0 < i \<and> i < length (Fields postContent) \<longrightarrow> gaps ! i \<noteq> [])) \<and>
   (\<forall>w\<in>set (Fields postContent). w \<noteq> [] \<and> (\<forall>i<length w. spaceWidth (drop i w) = 0)) \<and>
   (LookupBridgedMastodonPost c mastodonPostID mastodonUser mastodonInstance postContent
      displayName postDate = Inr found \<longrightarrow>
      tryHandles c mastodonPostID (possibleHandles mastodonUser mastodonInstance) = Some found \<or>
      searchForPost c (mastodonInstance @ ''/'' @ mastodonPostID) mastodonPostID = Inr found \<or>
      (postContent \<noteq> [] \<and>
       findPostByContentAndName c (searchContentOf postContent) displayName postDate = Inr found)) \<and>
   (findPostByContentAndName c content displayName postDate = Inr (uri, cid) \<longrightarrow>
      (\<exists>posts post. searchPosts c content 30 = Inr posts \<and> post \<in> set posts \<and>
         uri = Uri post \<and> cid = Cid post \<and>
         (AuthorDisplayName post = displayName \<or> sublist displayName (AuthorDisplayName post) \<or>
          sublist (AuthorDisplayName post) displayName) \<and>
         (sublist content (RecordText post) \<or> sublist (RecordText post) content) \<and>
         (\<exists>t. RecordCreatedAt post = Inr t \<and> \<bar>t - postDate\<bar> < 24 * Hour)))"
proof -
  have leading: "\<exists>k\<le>length ws. addWords (Join pre '' '') ws = Join (pre @ take k ws) '' '' \<and>
      (\<forall>j<k. length (Join (pre @ take j ws) '' '') + length (ws ! j) + 1 \<le> 30) \<and>
      (k < length ws \<longrightarrow> 30 < length (Join (pre @ take k ws) '' '') + length (ws ! k) + 1)"
    if "[] \<notin> set pre" "[] \<notin> set ws" for pre ws
    using that
  proof (induction ws arbitrary: pre)
    case Nil
    then show ?case by simp
  next
    case (Cons word ws)
    show ?case
    proof (cases "length (Join pre '' '') + length word + 1 \<le> 30")
      case False
      then show ?thesis by (intro exI[of _ 0]) simp
    next
      case True
      have step: "(if Join pre '' '' \<noteq> [] then Join pre '' '' @ '' '' else Join pre '' '') @ word
          = Join (pre @ [word]) '' ''"
      proof (cases "pre = []")
        case True
        then show ?thesis by simp
      next
        case False
        with Cons.prems(1) have "Join pre '' '' \<noteq> []" by (intro Join_nonempty)
        with False show ?thesis by (simp add: Join_snoc)
      qed
      from Cons.prems have "[] \<notin> set (pre @ [word])" "[] \<notin> set ws" by auto
      from Cons.IH[OF this] obtain k where k: "k \<le> length ws"
        "addWords (Join (pre @ [word]) '' '') ws = Join ((pre @ [word]) @ take k ws) '' ''"
        "\<forall>j<k. length (Join ((pre @ [word]) @ take j ws) '' '') + length (ws ! j) + 1 \<le> 30"
        "k < length ws \<longrightarrow> 30 < length (Join ((pre @ [word]) @ take k ws) '' '') + length (ws ! k) + 1"
        by blast
      have "Suc k \<le> length (word # ws)" using k(1) by simp
      moreover have "addWords (Join pre '' '') (word # ws) = Join (pre @ take (Suc k) (word # ws)) '' ''"
        using True step k(2) by simp
      moreover have "\<forall>j<Suc k. length (Join (pre @ take j (word # ws)) '' '') + length ((word # ws) ! j) + 1 \<le> 30"
      proof (intro allI impI)
        fix j assume j: "j < Suc k"
        show "length (Join (pre @ take j (word # ws)) '' '') + length ((word # ws) ! j) + 1 \<le> 30"
        proof (cases j)
          case 0
          with True show ?thesis by simp
        next
          case (Suc m)
          with j k(3) show ?thesis by simp
        qed
      qed
      moreover have "Suc k < length (word # ws) \<longrightarrow>
          30 < length (Join (pre @ take (Suc k) (word # ws)) '' '') + length ((word # ws) ! Suc k) + 1"
        using k(4) by simp
      ultimately show ?thesis by blast
    qed
  qed
  have "term": "\<exists>k\<le>length (Fields postContent).
      searchContentOf postContent = Join (take k (Fields postContent)) '' '' \<and>
      (\<forall>j<k. length (Join (take j (Fields postContent)) '' '') + length (Fields postContent ! j) + 1
               \<le> 30) \<and>
      (k < length (Fields postContent) \<longrightarrow>
         30 < length (Join (take k (Fields postContent)) '' '') + length (Fields postContent ! k) + 1)"
    if "30 < length postContent"
    using leading[of "[]" "Fields postContent"] Fields_nonempty[of postContent] that
    by (simp add: searchContentOf_def)
  have words: "(\<exists>gaps. length gaps = length (Fields postContent) + 1 \<and>
      concat (map2 (@) gaps (Fields postContent @ [[]])) = postContent \<and>
      (\<forall>g\<in>set gaps. whiteSpace g) \<and>
      (\<forall>i. 0 < i \<and> i < length (Fields postContent) \<longrightarrow> gaps ! i \<noteq> [])) \<and>
      (\<forall>w\<in>set (Fields postContent). w \<noteq> [] \<and> (\<forall>i<length w. spaceWidth (drop i w) = 0))"
    using fieldsFrom_gaps[of "[]" postContent] unfolding Fields_def by auto
  show ?thesis
  proof (intro conjI impI)
    show "length (searchContentOf postContent) \<le> 30"
      using addWords_length[of "[]" "Fields postContent"] by (simp add: searchContentOf_def)
  next
    assume "length postContent \<le> 30"
    then show "searchContentOf postContent = postContent" by (simp add: searchContentOf_def)
  next
    assume "30 < length postContent"
    from "term"[OF this] obtain k where
      "searchContentOf postContent = Join (take k (Fields postContent)) '' ''" by blast
    then show "prefix (searchContentOf postContent) (Join (Fields postContent) '' '')"
      by (simp add: Join_take_prefix)
  next
    assume "30 < length postContent"
    then show "\<exists>k\<le>length (Fields postContent).
        searchContentOf postContent = Join (take k (Fields postContent)) '' '' \<and>
        (\<forall>j<k. length (Join (take j (Fields postContent)) '' '') + length (Fields postContent ! j) + 1
                 \<le> 30) \<and>
        (k < length (Fields postContent) \<longrightarrow>
           30 < length (Join (take k (Fields postContent)) '' '') + length (Fields postContent ! k) + 1)"
      by (rule "term")
  next
    from words
    show "\<exists>gaps. length gaps = length (Fields postContent) + 1 \<and>
        concat (map2 (@) gaps (Fields postContent @ [[]])) = postContent \<and>
        (\<forall>g\<in>set gaps. whiteSpace g) \<and>
        (\<forall>i. 0 < i \<and> i < length (Fields postContent) \<longrightarrow> gaps ! i \<noteq> [])"
      by blast
  next
    from words
    show "\<forall>w\<in>set (Fields postContent). w \<noteq> [] \<and> (\<forall>i<length w. spaceWidth (drop i w) = 0)"
      by blast
  next
    assume "LookupBridgedMastodonPost c mastodonPostID mastodonUser mastodonInstance postContent
        displayName postDate = Inr found"
    then show "tryHandles c mastodonPostID (possibleHandles mastodonUser mastodonInstance) = Some found \<or>
        searchForPost c (mastodonInstance @ ''/'' @ mastodonPostID) mastodonPostID = Inr found \<or>
        (postContent \<noteq> [] \<and>
         findPostByContentAndName c (searchContentOf postContent) displayName postDate = Inr found)"
      by (auto simp: LookupBridgedMastodonPost_def
          split: option.splits sum.splits if_splits prod.splits)
  next
    assume found: "findPostByContentAndName c content displayName postDate = Inr (uri, cid)"
    then obtain posts where posts: "searchPosts c content 30 = Inr posts"
      and m: "matchByContentAndName content displayName postDate posts = Some (uri, cid)"
      by (auto simp: findPostByContentAndName_def split: sum.splits option.splits)
    from matchByContentAndName_Some[OF m] posts
    show "\<exists>posts post. searchPosts c content 30 = Inr posts \<and> post \<in> set posts \<and>
           uri = Uri post \<and> cid = Cid post \<and>
           (AuthorDisplayName post = displayName \<or> sublist displayName (AuthorDisplayName post) \<or>
            sublist (AuthorDisplayName post) displayName) \<and>
           (sublist content (RecordText post) \<or> sublist (RecordText post) content) \<and>
           (\<exists>t. RecordCreatedAt post = Inr t \<and> \<bar>t - postDate\<bar> < 24 * Hour)"
      unfolding Contains_sublist Sub_within by blast
  qed
qed

lemma fuzzy_found:
  "findPostByContentAndName findingClient ''parent text'' ''Alice'' 0
     = Inr (''at://did/app.bsky.feed.post/par'', ''pc'')"
  by (simp add: findPostByContentAndName_def findingClient_def refusingClient_def bridgedPost_def
      Sub_def Hour_def)

lemma lookup_found:
  "LookupBridgedMastodonPost findingClient ''4'' ''alice'' ''example.social'' ''parent text'' ''Alice'' 0
     = Inr (''at://did/app.bsky.feed.post/par'', ''pc'')"
  by (simp add: LookupBridgedMastodonPost_def findingClient_def refusingClient_def possibleHandles_def
      searchForPost_def findPostByContentAndName_def bridgedPost_def searchContentOf_def
      Sub_def Hour_def)

text \<open>
  C7, as stated, fails: the search term is not always a prefix of the content. When a
  line feed separates the first two words, the term holds a space in its place and is
  neither a prefix nor a part of the content; the lookup finds the post of a service
  that answers this term and fails on the first 26 bytes of the content.
\<close>

theorem fuzzy_resolver_prefix_counterexample:
  "30 < length newlineContent \<and>
   searchContentOf newlineContent = ''hello world this is a long'' \<and>
   \<not> prefix (searchContentOf newlineContent) newlineContent \<and>
   \<not> sublist (searchContentOf newlineContent) newlineContent \<and>
   searchPosts termClient ''hello world this is a long'' 30 = Inr [normalisedPost] \<and>
   searchPosts termClient (take 26 newlineContent) 30 = Inl (Err ''search failed with status 400: '') \<and>
   LookupBridgedMastodonPost termClient ''4'' ''alice'' ''example.social'' newlineContent ''Alice'' 0
     = Inr (''at://did/app.bsky.feed.post/par'', ''pc'')"
proof -
  have len: "30 < length newlineContent" by (simp add: newlineContent_def)
  have "Fields newlineContent
      = [''hello'', ''world'', ''this'', ''is'', ''a'', ''long'', ''sentence'', ''with'', ''many'', ''words'']"
    by code_simp
  with len have searched: "searchContentOf newlineContent = ''hello world this is a long''"
    by (simp add: searchContentOf_def)
  have part: "\<not> sublist ''hello world this is a long'' newlineContent"
    unfolding Contains_sublist[symmetric] newlineContent_def by simp
  then have start: "\<not> prefix ''hello world this is a long'' newlineContent"
    by (metis prefix_imp_sublist)
  have answered: "searchPosts termClient ''hello world this is a long'' 30 = Inr [normalisedPost]"
    by (simp add: termClient_def)
  have refused: "searchPosts termClient (take 26 newlineContent) 30
      = Inl (Err ''search failed with status 400: '')"
    by (simp add: termClient_def newlineContent_def)
  have "newlineContent \<noteq> []" by (simp add: newlineContent_def)
  then have "LookupBridgedMastodonPost termClient ''4'' ''alice'' ''example.social'' newlineContent
      ''Alice'' 0 = Inr (''at://did/app.bsky.feed.post/par'', ''pc'')"
    by (simp add: LookupBridgedMastodonPost_def termClient_def refusingClient_def possibleHandles_def
        searchForPost_def findPostByContentAndName_def normalisedPost_def bridgedPost_def
        searched Sub_def Hour_def)
  with len part start answered refused show ?thesis
    by (simp add: searched)
qed

theorem fuzzy_resolver_conditions_witness:
  "searchContentOf ''short text'' = ''short text'' \<and>
   30 < length spacedContent \<and>
   Fields spacedContent
     = [''hello'', ''world'', ''this'', ''is'', ''a'', ''long'', ''sentence'', ''with'', ''many'', ''words''] \<and>
   searchContentOf spacedContent = ''hello world this is a long'' \<and>
   prefix (searchContentOf spacedContent) (Join (Fields spacedContent) '' '') \<and>
   (\<exists>k\<le>length (Fields spacedContent).
      searchContentOf spacedContent = Join (take k (Fields spacedContent)) '' '' \<and>
      (\<forall>j<k. length (Join (take j (Fields spacedContent)) '' '') + length (Fields spacedContent ! j) + 1
               \<le> 30) \<and>
      (k < length (Fields spacedContent) \<longrightarrow>
         30 < length (Join (take k (Fields spacedContent)) '' '') + length (Fields spacedContent ! k) + 1)) \<and>
   (\<exists>gaps. length gaps = length (Fields spacedContent) + 1 \<and>
      concat (map2 (@) gaps (Fields spacedContent @ [[]])) = spacedContent \<and>
      (\<forall>g\<in>set gaps. whiteSpace g) \<and>
      (\<forall>i. 0 < i \<and> i < length (Fields spacedContent) \<longrightarrow> gaps ! i \<noteq> [])) \<and>
   LookupBridgedMastodonPost findingClient ''4'' ''alice'' ''example.social'' ''parent text'' ''Alice'' 0
     = Inr (''at://did/app.bsky.feed.post/par'', ''pc'') \<and>
   findPostByContentAndName findingClient (searchContentOf ''parent text'') ''Alice'' 0
     = Inr (''at://did/app.bsky.feed.post/par'', ''pc'') \<and>
   findPostByContentAndName findingClient ''parent text'' ''Alice'' 0
     = Inr (''at://did/app.bsky.feed.post/par'', ''pc'') \<and>
   (\<exists>posts post. searchPosts findingClient ''parent text'' 30 = Inr posts \<and> post \<in> set posts \<and>
      ''at://did/app.bsky.feed.post/par'' = Uri post \<and> ''pc'' = Cid post \<and>
      (AuthorDisplayName post = ''Alice'' \<or> sublist ''Alice'' (AuthorDisplayName post) \<or>
       sublist (AuthorDisplayName post) ''Alice'') \<and>
      (sublist ''parent text'' (RecordText post) \<or> sublist (RecordText post) ''parent text'') \<and>
      (\<exists>t. RecordCreatedAt post = Inr t \<and> \<bar>t - 0\<bar> < 24 * Hour))"
proof -
  note short = fuzzy_resolver_conditions[of "''short text''" findingClient "''4''" "''alice''"
      "''example.social''" "''Alice''" 0 "(''at://did/app.bsky.feed.post/par'', ''pc'')"
      "''parent text''" "''at://did/app.bsky.feed.post/par''" "''pc''"]
  note long = fuzzy_resolver_conditions[of spacedContent
      findingClient "''4''" "''alice''" "''example.social''" "''Alice''" 0
      "(''at://did/app.bsky.feed.post/par'', ''pc'')"
      "''parent text''" "''at://did/app.bsky.feed.post/par''" "''pc''"]
  note parent = fuzzy_resolver_conditions[of "''parent text''" findingClient "''4''" "''alice''"
      "''example.social''" "''Alice''" 0 "(''at://did/app.bsky.feed.post/par'', ''pc'')"
      "''parent text''" "''at://did/app.bsky.feed.post/par''" "''pc''"]
  have len: "30 < length spacedContent" by (simp add: spacedContent_def)
  have fields: "Fields spacedContent
      = [''hello'', ''world'', ''this'', ''is'', ''a'', ''long'', ''sentence'', ''with'', ''many'', ''words'']"
    unfolding spacedContent_def by code_simp
  with len have searched: "searchContentOf spacedContent = ''hello world this is a long''"
    by (simp add: searchContentOf_def)
  from short have a: "searchContentOf ''short text'' = ''short text''" by simp
  from long len have b1: "prefix (searchContentOf spacedContent) (Join (Fields spacedContent) '' '')"
    by blast
  from long len have b2: "\<exists>k\<le>length (Fields spacedContent).
      searchContentOf spacedContent = Join (take k (Fields spacedContent)) '' '' \<and>
      (\<forall>j<k. length (Join (take j (Fields spacedContent)) '' '') + length (Fields spacedContent ! j) + 1
               \<le> 30) \<and>
      (k < length (Fields spacedContent) \<longrightarrow>
         30 < length (Join (take k (Fields spacedContent)) '' '') + length (Fields spacedContent ! k) + 1)"
    by blast
  from long have b3: "\<exists>gaps. length gaps = length (Fields spacedContent) + 1 \<and>
      concat (map2 (@) gaps (Fields spacedContent @ [[]])) = spacedContent \<and>
      (\<forall>g\<in>set gaps. whiteSpace g) \<and>
      (\<forall>i. 0 < i \<and> i < length (Fields spacedContent) \<longrightarrow> gaps ! i \<noteq> [])"
    by blast
  from parent lookup_found fuzzy_found have c:
    "findPostByContentAndName findingClient (searchContentOf ''parent text'') ''Alice'' 0
       = Inr (''at://did/app.bsky.feed.post/par'', ''pc'')"
    by simp
  from parent fuzzy_found have d:
    "\<exists>posts post. searchPosts findingClient ''parent text'' 30 = Inr posts \<and> post \<in> set posts \<and>
      ''at://did/app.bsky.feed.post/par'' = Uri post \<and> ''pc'' = Cid post \<and>
      (AuthorDisplayName post = ''Alice'' \<or> sublist ''Alice'' (AuthorDisplayName post) \<or>
       sublist (AuthorDisplayName post) ''Alice'') \<and>
      (sublist ''parent text'' (RecordText post) \<or> sublist (RecordText post) ''parent text'') \<and>
      (\<exists>t. RecordCreatedAt post = Inr t \<and> \<bar>t - 0\<bar> < 24 * Hour)"
    by blast
  from a len b1 b2 b3 c d lookup_found fuzzy_found fields searched
  show ?thesis by blast
qed
subsection \<open>A reply to a post that is not mirrored, in the revision of src/main.go\<close>



end
